theory Spec2Isabelle
  imports
    Complex_Main
    "HOL-Library.Multiset"
    "HOL-Library.FSet"
    "HOL-Library.Char_ord"
    "HOL-Library.List_Lexorder"
begin

section \<open>Query expansion: the data model of esetinternal.cc\<close>

text \<open>
  The development embeds \<^verbatim>\<open>xapian-core/expand/esetinternal.cc\<close>: the construction of
  the merged term stream (\<^verbatim>\<open>build_termlist_tree\<close>), the candidate loop of
  \<^verbatim>\<open>ESet::Internal::expand\<close> with its bounded selection on a binary heap, the final
  sort, and the accessors of \<^verbatim>\<open>ESet\<close> and \<^verbatim>\<open>ESetIterator\<close>.

  Conventions of the embedding:
  \<^item> a weight is a C++ \<^verbatim>\<open>double\<close>; it is modelled as a \<^typ>\<open>real\<close>, which has the order
    of the finite doubles and of the infinities, and no NaN;
  \<^item> \<^verbatim>\<open>Xapian::termcount\<close> and \<^verbatim>\<open>Xapian::docid\<close> are declared outside the sources at
    hand; counts and identifiers are natural numbers;
  \<^item> a \<^verbatim>\<open>std::string\<close> is a \<^typ>\<open>string\<close>, compared bytewise and lexicographically
    as \<^verbatim>\<open>std::string::operator<\<close> does;
  \<^item> an exception is a value of type \<open>exn\<close>, on the left of a sum.
\<close>

subsection \<open>Candidate descriptors and their order\<close>

datatype ExpandTerm = ExpandTerm (wt: real) (tname: string)

instantiation ExpandTerm :: linorder
begin

text \<open>
  Modelled from the spec: \<^verbatim>\<open>ExpandTerm::operator<\<close> is declared in esetinternal.h,
  which is not among the sources. The spec gives the order: primary key weight
  descending, secondary key term ascending; \<open>a < b\<close> reads "\<open>a\<close> is a better
  candidate than \<open>b\<close>". The standard algorithms use \<open>operator<\<close> only;
  \<open>a \<le> b\<close> abbreviates \<open>\<not> b < a\<close>.
\<close>

definition less_ExpandTerm :: "ExpandTerm \<Rightarrow> ExpandTerm \<Rightarrow> bool" where
  "less_ExpandTerm a b =
     (if wt a > wt b then True
      else if wt a < wt b then False
      else tname a < tname b)"

definition less_eq_ExpandTerm :: "ExpandTerm \<Rightarrow> ExpandTerm \<Rightarrow> bool" where
  "less_eq_ExpandTerm a b = (\<not> b < a)"

instance
proof
  fix x y z :: ExpandTerm
  show "(x < y) = (x \<le> y \<and> \<not> y \<le> x)"
    by (auto simp: less_ExpandTerm_def less_eq_ExpandTerm_def)
  show "x \<le> x"
    by (simp add: less_ExpandTerm_def less_eq_ExpandTerm_def)
  show "x \<le> y \<Longrightarrow> y \<le> z \<Longrightarrow> x \<le> z"
    by (auto simp: less_ExpandTerm_def less_eq_ExpandTerm_def split: if_splits)
  show "x \<le> y \<Longrightarrow> y \<le> x \<Longrightarrow> x = y"
    by (cases x; cases y)
       (auto simp: less_ExpandTerm_def less_eq_ExpandTerm_def split: if_splits)
  show "x \<le> y \<or> y \<le> x"
    by (auto simp: less_ExpandTerm_def less_eq_ExpandTerm_def split: if_splits)
qed

end

subsection \<open>The heap algorithms of the standard library\<close>

text \<open>
  \<^verbatim>\<open>std::make_heap\<close>, \<^verbatim>\<open>std::push_heap\<close>, \<^verbatim>\<open>std::pop_heap\<close> and \<^verbatim>\<open>std::sort_heap\<close>
  work on the whole vector (\<^verbatim>\<open>items.begin()\<close> to \<^verbatim>\<open>items.end()\<close>) with \<open>operator<\<close>:
  a max-heap, whose front is the greatest element, here the worst candidate. They are
  the usual binary heap in an array: the children of index \<open>i\<close> are \<open>2 * i + 1\<close> and
  \<open>2 * i + 2\<close>. The standard fixes what the algorithms establish, not the layout they
  choose; the properties below rest on the contract alone (the multiset of the range,
  the greatest element at the front), which the section on the heap algorithms proves
  of these definitions. \<^verbatim>\<open>std::sort\<close> is \<^const>\<open>sort\<close>: under a linear order the
  sorted arrangement of a vector is unique.
\<close>

definition swap_at :: "nat \<Rightarrow> nat \<Rightarrow> 'a list \<Rightarrow> 'a list" where
  "swap_at i j xs = xs[i := xs ! j, j := xs ! i]"

function sift_down :: "'a::linorder list \<Rightarrow> nat \<Rightarrow> 'a list" where
  "sift_down xs i =
     (let l = 2 * i + 1; r = 2 * i + 2 in
      if l < length xs then
        (let c = (if r < length xs \<and> xs ! l < xs ! r then r else l) in
         if xs ! i < xs ! c then sift_down (swap_at i c xs) c else xs)
      else xs)"
  by pat_completeness auto
termination
proof (relation "measure (\<lambda>(xs, i). length xs - i)")
  show "wf (measure (\<lambda>(xs :: 'a list, i). length xs - i))" by simp
next
  fix xs :: "'a list" and i l r c :: nat
  assume "l = 2 * i + 1" "r = 2 * i + 2" "l < length xs"
    "c = (if r < length xs \<and> xs ! l < xs ! r then r else l)"
  then show "((swap_at i c xs, c), (xs, i)) \<in> measure (\<lambda>(xs, i). length xs - i)"
    by (auto simp: swap_at_def)
qed

function sift_up :: "'a::linorder list \<Rightarrow> nat \<Rightarrow> 'a list" where
  "sift_up xs i =
     (if i = 0 then xs
      else (let p = (i - 1) div 2 in
            if xs ! p < xs ! i then sift_up (swap_at p i xs) p else xs))"
  by pat_completeness auto
termination
  by (relation "measure (\<lambda>(xs, i). i)") simp_all

declare sift_down.simps [simp del] sift_up.simps [simp del]

lemma length_swap_at [simp]: "length (swap_at i j xs) = length xs"
  by (simp add: swap_at_def)

lemma length_sift_down [simp]: "length (sift_down xs i) = length xs"
  by (induction xs i rule: sift_down.induct) (subst sift_down.simps, simp add: Let_def)

lemma length_sift_up [simp]: "length (sift_up xs i) = length xs"
  by (induction xs i rule: sift_up.induct) (subst sift_up.simps, simp add: Let_def)

text \<open>\<^verbatim>\<open>make_heap\<close>: sift down every inner node, the last one first.\<close>

definition make_heap :: "'a::linorder list \<Rightarrow> 'a list" where
  "make_heap xs = fold (\<lambda>i ys. sift_down ys i) (rev [0..<length xs div 2]) xs"

text \<open>\<^verbatim>\<open>push_heap\<close>: all but the last element are a heap; the last one sifts up.\<close>

definition push_heap :: "'a::linorder list \<Rightarrow> 'a list" where
  "push_heap xs = sift_up xs (length xs - 1)"

text \<open>
  \<^verbatim>\<open>pop_heap\<close>: the front moves to the back, the former back takes the root of the
  remaining range and sifts down.
\<close>

definition pop_heap :: "'a::linorder list \<Rightarrow> 'a list" where
  "pop_heap xs =
     (if length xs \<le> 1 then xs
      else sift_down ((butlast xs)[0 := last xs]) 0 @ [hd xs])"

lemma length_pop_heap [simp]: "length (pop_heap xs) = length xs"
  by (auto simp: pop_heap_def)

text \<open>\<^verbatim>\<open>sort_heap\<close>: pop the heap on shrinking ranges until one element is left.\<close>

function sort_heap :: "'a::linorder list \<Rightarrow> 'a list" where
  "sort_heap xs =
     (if length xs \<le> 1 then xs
      else (let ys = pop_heap xs in sort_heap (butlast ys) @ [last ys]))"
  by pat_completeness auto
termination
  by (relation "measure length") simp_all

declare sort_heap.simps [simp del]

subsection \<open>Term lists, the database and the memory\<close>

type_synonym docid = nat

text \<open>
  A per-document term iterator yields the document's terms with their within-document
  frequency. Term lists live in memory at an address; the memory records every
  \<^verbatim>\<open>delete\<close> that was executed, oldest first.
\<close>

type_synonym TermList = "(string \<times> nat) list"

datatype exn = AssertionError | OpenError docid

record memory =
  termlists :: "nat \<rightharpoonup> TermList"
  next_addr :: nat
  deleted :: "nat list"

text \<open>
  \<^verbatim>\<open>Database::Internal::open_term_list_direct\<close> belongs to the storage layer. A database
  maps a document to its term list, or to nothing when the open fails; a successful
  open allocates a fresh object.
\<close>

type_synonym Database = "docid \<Rightarrow> TermList option"

definition open_term_list_direct :: "Database \<Rightarrow> docid \<Rightarrow> memory \<Rightarrow> (exn + nat) \<times> memory" where
  "open_term_list_direct db did m =
     (case db did of
        None \<Rightarrow> (Inl (OpenError did), m)
      | Some ts \<Rightarrow>
          (Inr (next_addr m),
           m\<lparr>termlists := (termlists m)(next_addr m \<mapsto> ts), next_addr := Suc (next_addr m)\<rparr>))"

definition delete_ptr :: "nat \<Rightarrow> memory \<Rightarrow> memory" where
  "delete_ptr p m = m\<lparr>termlists := (termlists m)(p := None), deleted := deleted m @ [p]\<rparr>"

text \<open>
  Modelled from the spec: the \<^verbatim>\<open>Assert\<close> macros of omassert.h are not among the
  sources. By the spec a contract violation fails fast: the assertion raises and
  nothing after it runs.
\<close>

definition Assert :: "bool \<Rightarrow> exn + unit" where
  "Assert c = (if c then Inr () else Inl AssertionError)"

text \<open>
  Modelled from the spec: \<^verbatim>\<open>make_termlist_merger\<close> (termlistmerger.h) and the
  \<^verbatim>\<open>OrTermList\<close> nodes it builds are not among the sources. By the spec the tree
  exposes the union of its leaves as one ordered stream: a term appears once, with the
  combined statistics of the documents that hold it; the tree owns its leaves and
  releases them when it is destroyed.
\<close>

fun or_termlist :: "TermList \<Rightarrow> TermList \<Rightarrow> TermList" where
  "or_termlist [] ys = ys"
| "or_termlist xs [] = xs"
| "or_termlist ((s, f) # xs) ((t, g) # ys) =
     (if s < t then (s, f) # or_termlist xs ((t, g) # ys)
      else if t < s then (t, g) # or_termlist ((s, f) # xs) ys
      else (s, f + g) # or_termlist xs ys)"

text \<open>
  Modelled from the spec: the tree that \<^verbatim>\<open>make_termlist_merger\<close> returns, as the
  stream it exposes and the leaves it owns.
\<close>

record tree =
  stream :: TermList
  leaves :: "nat list"

text \<open>
  Modelled from the spec: \<^verbatim>\<open>make_termlist_merger\<close> combines the term lists pairwise;
  the union does not depend on the shape of the tree.
\<close>

definition make_termlist_merger :: "nat list \<Rightarrow> memory \<Rightarrow> tree" where
  "make_termlist_merger ptrs m =
     \<lparr>stream = foldr or_termlist
                 (map (\<lambda>p. case termlists m p of Some ts \<Rightarrow> ts | None \<Rightarrow> []) ptrs) [],
      leaves = ptrs\<rparr>"

text \<open>
  Modelled from the spec: the destructor of the tree, which \<^verbatim>\<open>unique_ptr\<close> runs when
  \<^verbatim>\<open>expand\<close> returns; the tree releases the leaves it owns.
\<close>

definition delete_tree :: "tree \<Rightarrow> memory \<Rightarrow> memory" where
  "delete_tree t m = fold delete_ptr (leaves t) m"

subsection \<open>build_termlist_tree\<close>

text \<open>
  The loop over the document ids of the reference set, in the ascending order of
  \<^verbatim>\<open>std::set\<close>. It returns the vector of term lists opened so far, together with the
  exception when an open raised.
\<close>

fun open_termlists ::
  "Database \<Rightarrow> docid list \<Rightarrow> nat list \<Rightarrow> memory \<Rightarrow> (exn + unit) \<times> nat list \<times> memory" where
  "open_termlists db [] tls m = (Inr (), tls, m)"
| "open_termlists db (did # dids) tls m =
     (case open_term_list_direct db did m of
        (Inl e, m') \<Rightarrow> (Inl e, tls, m')
      | (Inr p, m') \<Rightarrow> open_termlists db dids (tls @ [p]) m')"

definition build_termlist_tree :: "Database \<Rightarrow> docid fset \<Rightarrow> memory \<Rightarrow> (exn + tree) \<times> memory" where
  "build_termlist_tree db rset m =
     (case Assert (rset \<noteq> {||}) of
        Inl e \<Rightarrow> (Inl e, m)
      | Inr _ \<Rightarrow>
          (case open_termlists db (sorted_list_of_fset rset) [] m of
             (Inl e, tls, m') \<Rightarrow> (Inl e, fold delete_ptr tls m')
           | (Inr _, tls, m') \<Rightarrow>
               (case Assert (tls \<noteq> []) of
                  Inl e \<Rightarrow> (Inl e, fold delete_ptr tls m')
                | Inr _ \<Rightarrow> (Inr (make_termlist_merger tls m'), m'))))"

subsection \<open>ESet::Internal::expand\<close>

record ESet_Internal =
  ebound :: nat
  items :: "ExpandTerm list"

text \<open>The object together with the local variables of the candidate loop.\<close>

record expand_locals = ESet_Internal +
  is_heap :: bool
  min_wt :: real

text \<open>
  The weighting engine: \<^verbatim>\<open>collect_stats(tree, term)\<close> clears the statistics and collects
  those of the term at the current position of the stream, \<^verbatim>\<open>get_weight()\<close> scores them.
  The engine is external; it is a function of the combined frequency at the position
  and of the term.
\<close>

type_synonym ExpandWeight = "nat \<Rightarrow> string \<Rightarrow> real"

type_synonym ExpandDecider = "string \<Rightarrow> bool"

text \<open>
  One pass through the body of \<^verbatim>\<open>while (true)\<close> for the position \<open>pos\<close> that
  \<^verbatim>\<open>tree->next()\<close> reached (a root that replaces itself yields the same stream; the
  loop ends when the stream does). \<^verbatim>\<open>items.front()\<close> is read after the pop; the
  vector then holds \<open>max_esize\<close> elements, and \<open>max_esize\<close> is positive inside
  \<^verbatim>\<open>expand\<close>.
\<close>

definition expand_step ::
  "nat \<Rightarrow> ExpandDecider option \<Rightarrow> ExpandWeight \<Rightarrow> expand_locals \<Rightarrow> string \<times> nat \<Rightarrow> expand_locals" where
  "expand_step max_esize edecider eweight s pos =
     (let tn = fst pos in
      if (case edecider of Some d \<Rightarrow> \<not> d tn | None \<Rightarrow> False) then s
      else
        (let s1 = s\<lparr>ebound := ebound s + 1\<rparr>;
             w = eweight (snd pos) tn
         in if w \<le> min_wt s1 then s1
            else
              (let s2 = s1\<lparr>items := items s1 @ [ExpandTerm w tn]\<rparr>
               in if length (items s2) > max_esize then
                    (let s3 = (if \<not> is_heap s2
                               then s2\<lparr>is_heap := True, items := make_heap (items s2)\<rparr>
                               else s2\<lparr>items := push_heap (items s2)\<rparr>);
                         s4 = s3\<lparr>items := butlast (pop_heap (items s3))\<rparr>
                     in s4\<lparr>min_wt := wt (hd (items s4))\<rparr>)
                  else s2)))"

fun expand_loop ::
  "nat \<Rightarrow> ExpandDecider option \<Rightarrow> ExpandWeight \<Rightarrow> expand_locals \<Rightarrow> TermList \<Rightarrow> expand_locals" where
  "expand_loop max_esize edecider eweight s [] = s"
| "expand_loop max_esize edecider eweight s (pos # rest) =
     expand_loop max_esize edecider eweight (expand_step max_esize edecider eweight s pos) rest"

text \<open>The final sort: \<^verbatim>\<open>sort_heap\<close> when the vector was made a heap, \<^verbatim>\<open>std::sort\<close> otherwise.\<close>

definition sort_items :: "expand_locals \<Rightarrow> ExpandTerm list" where
  "sort_items s = (if is_heap s then sort_heap (items s) else sort (items s))"

definition expand ::
  "nat \<Rightarrow> Database \<Rightarrow> docid fset \<Rightarrow> ExpandDecider option \<Rightarrow> ExpandWeight \<Rightarrow> real \<Rightarrow>
   ESet_Internal \<Rightarrow> memory \<Rightarrow> (exn + unit) \<times> ESet_Internal \<times> memory" where
  "expand max_esize db rset edecider eweight min_wt0 this m =
     (case Assert (max_esize \<noteq> 0) of Inl e \<Rightarrow> (Inl e, this, m) | Inr _ \<Rightarrow>
      case Assert (rset \<noteq> {||}) of Inl e \<Rightarrow> (Inl e, this, m) | Inr _ \<Rightarrow>
      case Assert (ebound this = 0) of Inl e \<Rightarrow> (Inl e, this, m) | Inr _ \<Rightarrow>
      case Assert (items this = []) of Inl e \<Rightarrow> (Inl e, this, m) | Inr _ \<Rightarrow>
      (case build_termlist_tree db rset m of
         (Inl e, m') \<Rightarrow> (Inl e, this, m')
       | (Inr t, m') \<Rightarrow>
           (let s = expand_loop max_esize edecider eweight
                      \<lparr>ebound = ebound this, items = items this,
                       is_heap = False, min_wt = min_wt0\<rparr> (stream t)
            in (Inr (), \<lparr>ebound = ebound s, items = sort_items s\<rparr>, delete_tree t m'))))"

subsection \<open>ESet and ESetIterator\<close>

record ESet =
  internal :: ESet_Internal

definition size_eset :: "ESet \<Rightarrow> nat" where
  "size_eset e = length (items (internal e))"

definition get_ebound :: "ESet \<Rightarrow> nat" where
  "get_ebound e = ebound (internal e)"

definition get_description :: "ESet \<Rightarrow> string" where
  "get_description e = ''ESet('' @ [CHR '')'']"

text \<open>
  \<^verbatim>\<open>ExpandTerm::get_description\<close> and \<^verbatim>\<open>ESet::Internal::get_description\<close>. The
  conversions \<^verbatim>\<open>str\<close> (str.h) and \<^verbatim>\<open>description_append\<close>
  (unicode/description_append.h) are not among the sources; they are parameters:
  \<open>str_wt\<close> and \<open>str_count\<close> render a number, \<open>append_term desc t\<close> is \<open>desc\<close> after
  the term was appended to it.
\<close>

definition expandterm_get_description ::
  "(real \<Rightarrow> string) \<Rightarrow> (string \<Rightarrow> string \<Rightarrow> string) \<Rightarrow> ExpandTerm \<Rightarrow> string" where
  "expandterm_get_description str_wt append_term x =
     append_term (''ExpandTerm('' @ str_wt (wt x) @ '', '') (tname x) @ [CHR '')'']"

definition internal_get_description ::
  "(nat \<Rightarrow> string) \<Rightarrow> (real \<Rightarrow> string) \<Rightarrow> (string \<Rightarrow> string \<Rightarrow> string) \<Rightarrow>
   ESet_Internal \<Rightarrow> string" where
  "internal_get_description str_count str_wt append_term this =
     foldl (\<lambda>desc i. desc @ '', '' @ expandterm_get_description str_wt append_term i)
       (''ESet::Internal(ebound='' @ str_count (ebound this)) (items this)
     @ [CHR '')'']"

record ESetIterator =
  eset :: ESet
  off_from_end :: nat

text \<open>
  \<^verbatim>\<open>ESetIterator::operator*\<close> and \<^verbatim>\<open>ESetIterator::get_weight\<close>: two assertions, then
  the element \<open>off_from_end\<close> places before \<^verbatim>\<open>items.end()\<close>.
\<close>

definition deref :: "ESetIterator \<Rightarrow> exn + ExpandTerm" where
  "deref it =
     (case Assert (off_from_end it \<noteq> 0) of Inl e \<Rightarrow> Inl e | Inr _ \<Rightarrow>
      case Assert (off_from_end it \<le> length (items (internal (eset it)))) of
        Inl e \<Rightarrow> Inl e
      | Inr _ \<Rightarrow>
          Inr (items (internal (eset it))
                 ! (length (items (internal (eset it))) - off_from_end it)))"

definition iterator_term :: "ESetIterator \<Rightarrow> exn + string" where
  "iterator_term it = map_sum id tname (deref it)"

definition iterator_get_weight :: "ESetIterator \<Rightarrow> exn + real" where
  "iterator_get_weight it = map_sum id wt (deref it)"

text \<open>
  Modelled from the spec: \<^verbatim>\<open>ESet::begin\<close>, \<^verbatim>\<open>ESetIterator::operator++\<close> and the test for
  the end are declared in the public header, which is not among the sources. By the
  spec a cursor is positioned at the first element, \<open>advance\<close> moves it toward the worst
  element, and \<open>at_end\<close> is true once it is past the last; \<^verbatim>\<open>get_description\<close> shows
  that the end is \<open>off_from_end = 0\<close> and that the rank is the size minus
  \<open>off_from_end\<close>.
\<close>

definition begin_eset :: "ESet \<Rightarrow> ESetIterator" where
  "begin_eset e = \<lparr>eset = e, off_from_end = size_eset e\<rparr>"

text \<open>Modelled from the spec: the test for the end, \<open>off_from_end = 0\<close>.\<close>

definition at_end :: "ESetIterator \<Rightarrow> bool" where
  "at_end it = (off_from_end it = 0)"

text \<open>Modelled from the spec: \<^verbatim>\<open>operator++\<close>, one step toward the worst element.\<close>

definition advance :: "ESetIterator \<Rightarrow> ESetIterator" where
  "advance it = it\<lparr>off_from_end := off_from_end it - 1\<rparr>"

text \<open>The dereferences of a traversal: from the cursor to the end.\<close>

function visit :: "ESetIterator \<Rightarrow> (exn + ExpandTerm) list" where
  "visit it = (if at_end it then [] else deref it # visit (advance it))"
  by pat_completeness auto
termination
  by (relation "measure off_from_end") (simp_all add: at_end_def advance_def)

declare visit.simps [simp del]

subsection \<open>The example of the specification\<close>

text \<open>
  Document 1 holds "cat" three times and "dog" once, document 2 holds "bird" twice and
  "cat" once; every other document fails to open. The engine scores a term by its
  combined frequency.
\<close>

definition example_db :: Database where
  "example_db =
     (\<lambda>d. if d = 1 then Some [(''cat'', 3), (''dog'', 1)]
          else if d = 2 then Some [(''bird'', 2), (''cat'', 1)]
          else None)"

definition raw_frequency :: ExpandWeight where
  "raw_frequency f t = real f"

definition empty_memory :: memory where
  "empty_memory = \<lparr>termlists = Map.empty, next_addr = 0, deleted = []\<rparr>"

definition empty_eset :: ESet_Internal where
  "empty_eset = \<lparr>ebound = 0, items = []\<rparr>"

subsection \<open>The vocabulary of the claims\<close>

text \<open>
  The decider accepts a term when there is no decider or when it returns true. The
  candidate of a stream position is the descriptor that \<^verbatim>\<open>expand\<close> builds there. A
  position is handed to the selector when the pass reaches \<^verbatim>\<open>items.push_back\<close>: the
  decider accepts the term and its weight exceeds the threshold of that moment.
  \<open>selector_inputs\<close> lists the candidates handed over while the loop runs from
  state \<open>s\<close>; \<open>init_locals\<close> is the state in which \<^verbatim>\<open>expand\<close> enters the loop.
\<close>

definition accepts :: "ExpandDecider option \<Rightarrow> string \<Rightarrow> bool" where
  "accepts edecider t = (case edecider of Some d \<Rightarrow> d t | None \<Rightarrow> True)"

definition candidate :: "ExpandWeight \<Rightarrow> string \<times> nat \<Rightarrow> ExpandTerm" where
  "candidate eweight pos = ExpandTerm (eweight (snd pos) (fst pos)) (fst pos)"

definition handed ::
  "ExpandDecider option \<Rightarrow> ExpandWeight \<Rightarrow> expand_locals \<Rightarrow> string \<times> nat \<Rightarrow> bool" where
  "handed edecider eweight s pos \<longleftrightarrow>
     accepts edecider (fst pos) \<and> min_wt s < eweight (snd pos) (fst pos)"

fun selector_inputs ::
  "nat \<Rightarrow> ExpandDecider option \<Rightarrow> ExpandWeight \<Rightarrow> expand_locals \<Rightarrow> TermList \<Rightarrow> ExpandTerm list" where
  "selector_inputs max_esize edecider eweight s [] = []"
| "selector_inputs max_esize edecider eweight s (pos # rest) =
     (if handed edecider eweight s pos then [candidate eweight pos] else []) @
     selector_inputs max_esize edecider eweight (expand_step max_esize edecider eweight s pos) rest"

definition init_locals :: "ESet_Internal \<Rightarrow> real \<Rightarrow> expand_locals" where
  "init_locals this min_wt0 =
     \<lparr>ebound = ebound this, items = items this, is_heap = False, min_wt = min_wt0\<rparr>"


text \<open>
  A position overflows when the push makes \<^verbatim>\<open>items.size() > max_esize\<close> true.
\<close>

definition overflows ::
  "nat \<Rightarrow> ExpandDecider option \<Rightarrow> ExpandWeight \<Rightarrow> expand_locals \<Rightarrow> string \<times> nat \<Rightarrow> bool" where
  "overflows max_esize edecider eweight s pos \<longleftrightarrow>
     handed edecider eweight s pos \<and> max_esize < length (items s @ [candidate eweight pos])"

text \<open>
  The eligible candidates of a stream: those of the terms the decider accepts, with a
  weight above the minimum weight of the caller.
\<close>

definition eligible ::
  "ExpandDecider option \<Rightarrow> ExpandWeight \<Rightarrow> real \<Rightarrow> TermList \<Rightarrow> ExpandTerm list" where
  "eligible edecider eweight min_wt0 xs =
     filter (\<lambda>c. min_wt0 < wt c)
       (map (candidate eweight) (filter (\<lambda>pos. accepts edecider (fst pos)) xs))"

subsection \<open>Invariants\<close>

text \<open>
  The predicates of the proofs: \<open>heap_ordered\<close> is the heap order of the whole vector,
  \<open>heap_from xs k\<close> the heap order below the nodes from \<open>k\<close> on, \<open>heap_except_down\<close>
  and \<open>heap_except_up\<close> the order with one node under repair; \<open>rebuild\<close> is the
  heap step of an overflowing pass and \<open>loop_inv\<close> the invariant of the candidate loop.
\<close>

definition heap_from :: "'a::linorder list \<Rightarrow> nat \<Rightarrow> bool" where
  "heap_from xs k \<longleftrightarrow>
     (\<forall>j<length xs. 0 < j \<and> k \<le> (j - 1) div 2 \<longrightarrow> xs ! j \<le> xs ! ((j - 1) div 2))"

definition heap_except_down :: "'a::linorder list \<Rightarrow> nat \<Rightarrow> nat \<Rightarrow> bool" where
  "heap_except_down xs k i \<longleftrightarrow>
     (\<forall>j<length xs. 0 < j \<and> k \<le> (j - 1) div 2 \<longrightarrow>
        ((j - 1) div 2 \<noteq> i \<longrightarrow> xs ! j \<le> xs ! ((j - 1) div 2)) \<and>
        ((j - 1) div 2 = i \<and> 0 < i \<and> k \<le> (i - 1) div 2 \<longrightarrow> xs ! j \<le> xs ! ((i - 1) div 2)))"

definition heap_ordered :: "'a::linorder list \<Rightarrow> bool" where
  "heap_ordered xs \<longleftrightarrow> (\<forall>j<length xs. 0 < j \<longrightarrow> xs ! j \<le> xs ! ((j - 1) div 2))"

definition heap_except_up :: "'a::linorder list \<Rightarrow> nat \<Rightarrow> bool" where
  "heap_except_up xs i \<longleftrightarrow>
     (\<forall>j<length xs. 0 < j \<longrightarrow>
        (j \<noteq> i \<longrightarrow> xs ! j \<le> xs ! ((j - 1) div 2)) \<and>
        ((j - 1) div 2 = i \<and> 0 < i \<longrightarrow> xs ! j \<le> xs ! ((i - 1) div 2)))"

definition rebuild :: "bool \<Rightarrow> ExpandTerm list \<Rightarrow> ExpandTerm list" where
  "rebuild h xs = (if h then push_heap xs else make_heap xs)"

definition loop_inv :: "nat \<Rightarrow> real \<Rightarrow> expand_locals \<Rightarrow> bool" where
  "loop_inv K m0 s \<longleftrightarrow>
     length (items s) \<le> K \<and> m0 \<le> min_wt s \<and> (\<forall>x\<in>set (items s). m0 < wt x) \<and>
     (if is_heap s
      then heap_ordered (items s) \<and> length (items s) = K \<and> min_wt s = wt (hd (items s))
      else min_wt s = m0)"

section \<open>Properties\<close>

lemmas eval_build =
  build_termlist_tree_def Assert_def sorted_list_of_fset.rep_eq open_term_list_direct_def
  make_termlist_merger_def example_db_def empty_memory_def empty_eset_def

lemmas eval_heap =
  make_heap_def push_heap_def pop_heap_def sift_down.simps sift_up.simps sort_heap.simps
  swap_at_def less_ExpandTerm_def less_eq_ExpandTerm_def

lemmas eval_expand =
  expand_def expand_step_def sort_items_def raw_frequency_def Let_def

subsection \<open>The heap algorithms keep their contract\<close>

text \<open>
  The contract of the standard library: the algorithms permute the range, \<^verbatim>\<open>make_heap\<close>
  and \<^verbatim>\<open>push_heap\<close> establish the heap order, \<^verbatim>\<open>pop_heap\<close> moves the greatest
  element to the back and leaves a heap before it, \<^verbatim>\<open>sort_heap\<close> sorts a heap.
  \<open>heap_from xs k\<close> is the heap order below the nodes from \<open>k\<close> on;
  \<open>heap_except_down\<close> and \<open>heap_except_up\<close> are the order with one node under repair.
\<close>

lemma mset_swap_at: "i < length xs \<Longrightarrow> j < length xs \<Longrightarrow> mset (swap_at i j xs) = mset xs"
  unfolding swap_at_def by (simp add: mset_swap)

lemma mset_sift_down [simp]: "mset (sift_down xs i) = mset xs"
proof (induction xs i rule: sift_down.induct)
  case (1 xs i)
  show ?case
    using 1 by (subst sift_down.simps) (auto simp: Let_def mset_swap_at)
qed

lemma mset_sift_up: "i < length xs \<Longrightarrow> mset (sift_up xs i) = mset xs"
proof (induction xs i rule: sift_up.induct)
  case (1 xs i)
  have p: "(i - 1) div 2 < length xs" using 1(2) by simp
  show ?case
    using 1 p by (subst sift_up.simps) (auto simp: Let_def mset_swap_at)
qed

lemma parent_cases:
  "0 < (j::nat) \<Longrightarrow> (j - 1) div 2 = i \<longleftrightarrow> j = 2 * i + 1 \<or> j = 2 * i + 2"
  by arith

lemma sift_down_heap:
  "heap_except_down xs k i \<Longrightarrow> k \<le> i \<Longrightarrow> heap_from (sift_down xs i) k"
proof (induction xs i rule: sift_down.induct)
  case (1 xs i)
  let ?l = "2 * i + 1" and ?r = "2 * i + 2"
  show ?case
  proof (cases "?l < length xs")
    case False
    then have "sift_down xs i = xs" by (subst sift_down.simps) simp
    moreover have "heap_from xs k"
      unfolding heap_from_def
    proof (intro allI impI)
      fix j assume j: "j < length xs" "0 < j \<and> k \<le> (j - 1) div 2"
      with False have "(j - 1) div 2 \<noteq> i" using parent_cases[of j i] by auto
      with 1(2) j show "xs ! j \<le> xs ! ((j - 1) div 2)" by (simp add: heap_except_down_def)
    qed
    ultimately show ?thesis by simp
  next
    case l: True
    define c where "c = (if ?r < length xs \<and> xs ! ?l < xs ! ?r then ?r else ?l)"
    have c_cases: "c = ?l \<or> c = ?r" and c_len: "c < length xs" and pc: "(c - 1) div 2 = i"
      and c_pos: "0 < c" and ic: "i < c"
      using l by (auto simp: c_def)
    have c_max: "xs ! j \<le> xs ! c" if "j < length xs" "j = ?l \<or> j = ?r" for j
      using that l by (auto simp: c_def)
    have unf: "sift_down xs i = (if xs ! i < xs ! c then sift_down (swap_at i c xs) c else xs)"
      unfolding c_def by (subst sift_down.simps, unfold Let_def, simp only: l if_True)
    show ?thesis
    proof (cases "xs ! i < xs ! c")
      case False
      then have "sift_down xs i = xs"
        using unf by simp
      moreover have "heap_from xs k"
        unfolding heap_from_def
      proof (intro allI impI)
        fix j assume j: "j < length xs" "0 < j \<and> k \<le> (j - 1) div 2"
        show "xs ! j \<le> xs ! ((j - 1) div 2)"
        proof (cases "(j - 1) div 2 = i")
          case True
          then have "j = ?l \<or> j = ?r" using j parent_cases[of j i] by blast
          then have "xs ! j \<le> xs ! c" using c_max j by blast
          with False True show ?thesis by simp
        next
          case False
          with 1(2) j show ?thesis by (simp add: heap_except_down_def)
        qed
      qed
      ultimately show ?thesis by simp
    next
      case swap: True
      let ?ys = "swap_at i c xs"
      have eq: "sift_down xs i = sift_down ?ys c"
        using unf swap by simp
      have i_len: "i < length xs" using l by simp
      have ys_i: "?ys ! i = xs ! c" and ys_c: "?ys ! c = xs ! i"
        and ys_o: "\<And>j. j \<noteq> i \<Longrightarrow> j \<noteq> c \<Longrightarrow> ?ys ! j = xs ! j"
        using i_len c_len ic by (auto simp: swap_at_def)
      have "heap_except_down ?ys k c"
        unfolding heap_except_down_def
      proof (intro allI impI conjI)
        fix j assume j: "j < length ?ys" "0 < j \<and> k \<le> (j - 1) div 2" and np: "(j - 1) div 2 \<noteq> c"
        show "?ys ! j \<le> ?ys ! ((j - 1) div 2)"
        proof (cases "(j - 1) div 2 = i")
          case True
          then have jc: "j = ?l \<or> j = ?r" using j parent_cases[of j i] by blast
          show ?thesis
          proof (cases "j = c")
            case True
            then show ?thesis using swap ys_i ys_c pc by simp
          next
            case False
            then have "?ys ! j = xs ! j" using jc ys_o by auto
            moreover have "xs ! j \<le> xs ! c" using c_max j jc by simp
            ultimately show ?thesis using True ys_i by simp
          qed
        next
          case pi: False
          have jc: "j \<noteq> c" using pi pc by auto
          have pj: "?ys ! ((j - 1) div 2) = xs ! ((j - 1) div 2)" using pi np ys_o by simp
          show ?thesis
          proof (cases "j = i")
            case True
            then have "0 < i" "k \<le> (i - 1) div 2" using j by auto
            with 1(2) c_len pc c_pos have "xs ! c \<le> xs ! ((i - 1) div 2)"
              by (simp add: heap_except_down_def)
            then show ?thesis using True ys_i pj by simp
          next
            case False
            then have "?ys ! j = xs ! j" using jc ys_o by simp
            moreover have "xs ! j \<le> xs ! ((j - 1) div 2)"
              using 1(2) j pi by (simp add: heap_except_down_def)
            ultimately show ?thesis using pj by simp
          qed
        qed
      next
        fix j assume j: "j < length ?ys" "0 < j \<and> k \<le> (j - 1) div 2"
          and p: "(j - 1) div 2 = c \<and> 0 < c \<and> k \<le> (c - 1) div 2"
        have "j \<noteq> i" "j \<noteq> c" using p ic j by auto
        then have "?ys ! j = xs ! j" using ys_o by simp
        moreover have "xs ! j \<le> xs ! c"
          using 1(2) j p ic by (auto simp: heap_except_down_def)
        ultimately show "?ys ! j \<le> ?ys ! ((c - 1) div 2)" using pc ys_i by simp
      qed
      moreover have "k \<le> c" using ic 1(3) by simp
      ultimately have "heap_from (sift_down ?ys c) k"
        by (rule 1(1)[OF refl refl l c_def swap])
      then show ?thesis using eq by simp
    qed
  qed
qed

lemma heap_from_0: "heap_from xs 0 = heap_ordered xs"
  by (simp add: heap_from_def heap_ordered_def)

lemma heap_from_top: "length xs div 2 \<le> k \<Longrightarrow> heap_from xs k"
  unfolding heap_from_def by (intro allI impI) arith

lemma heap_from_step: "heap_from xs (Suc k) \<Longrightarrow> heap_except_down xs k k"
  unfolding heap_from_def heap_except_down_def
proof (intro allI impI conjI)
  fix j assume h: "\<forall>j<length xs. 0 < j \<and> Suc k \<le> (j - 1) div 2 \<longrightarrow> xs ! j \<le> xs ! ((j - 1) div 2)"
    and j: "j < length xs" "0 < j \<and> k \<le> (j - 1) div 2" "(j - 1) div 2 \<noteq> k"
  then have "Suc k \<le> (j - 1) div 2" by simp
  with h j show "xs ! j \<le> xs ! ((j - 1) div 2)" by simp
next
  fix j assume "(j - 1) div 2 = k \<and> 0 < k \<and> k \<le> (k - 1) div 2"
  then have False by arith
  then show "xs ! j \<le> xs ! ((k - 1) div 2)" ..
qed

lemma fold_sift_down_heap:
  "heap_from xs m \<Longrightarrow> heap_from (fold (\<lambda>i ys. sift_down ys i) (rev [0..<m]) xs) 0"
proof (induction m arbitrary: xs)
  case 0
  then show ?case by simp
next
  case (Suc m)
  have "heap_from (sift_down xs m) m"
    by (rule sift_down_heap[OF heap_from_step[OF Suc.prems]]) simp
  then show ?case using Suc.IH by simp
qed

lemma heap_ordered_make_heap: "heap_ordered (make_heap xs)"
  unfolding make_heap_def heap_from_0[symmetric]
  by (rule fold_sift_down_heap) (simp add: heap_from_top)

lemma mset_fold_sift_down: "mset (fold (\<lambda>i ys. sift_down ys i) ks xs) = mset xs"
  by (induction ks arbitrary: xs) simp_all

lemma mset_make_heap [simp]: "mset (make_heap xs) = mset xs"
  by (simp add: make_heap_def mset_fold_sift_down)

lemma length_make_heap [simp]: "length (make_heap xs) = length xs"
  using mset_make_heap[of xs] by (metis size_mset)

lemma sift_up_heap:
  "heap_except_up xs i \<Longrightarrow> i < length xs \<Longrightarrow> heap_ordered (sift_up xs i)"
proof (induction xs i rule: sift_up.induct)
  case (1 xs i)
  show ?case
  proof (cases "i = 0")
    case True
    then have "sift_up xs i = xs" by (subst sift_up.simps) simp
    moreover have "heap_ordered xs"
      using 1(2) True by (auto simp: heap_except_up_def heap_ordered_def)
    ultimately show ?thesis by simp
  next
    case i0: False
    define p where "p = (i - 1) div 2"
    have pi: "p < i" using i0 by (simp add: p_def)
    have unf: "sift_up xs i = (if xs ! p < xs ! i then sift_up (swap_at p i xs) p else xs)"
      unfolding p_def by (subst sift_up.simps, unfold Let_def, simp only: i0 if_False)
    show ?thesis
    proof (cases "xs ! p < xs ! i")
      case False
      then have "sift_up xs i = xs" using unf by simp
      moreover have "heap_ordered xs"
        unfolding heap_ordered_def
      proof (intro allI impI)
        fix j assume j: "j < length xs" "0 < j"
        show "xs ! j \<le> xs ! ((j - 1) div 2)"
        proof (cases "j = i")
          case True
          then show ?thesis using False by (simp add: p_def)
        next
          case False
          then show ?thesis using 1(2) j by (simp add: heap_except_up_def)
        qed
      qed
      ultimately show ?thesis by simp
    next
      case swap: True
      let ?ys = "swap_at p i xs"
      have p_len: "p < length xs" using pi 1(3) by simp
      have ys_p: "?ys ! p = xs ! i" and ys_i: "?ys ! i = xs ! p"
        and ys_o: "\<And>j. j \<noteq> i \<Longrightarrow> j \<noteq> p \<Longrightarrow> ?ys ! j = xs ! j"
        using p_len 1(3) pi by (auto simp: swap_at_def)
      have "heap_except_up ?ys p"
        unfolding heap_except_up_def
      proof (intro allI impI conjI)
        fix j assume j: "j < length ?ys" "0 < j" "j \<noteq> p"
        show "?ys ! j \<le> ?ys ! ((j - 1) div 2)"
        proof (cases "j = i")
          case True
          then show ?thesis using swap ys_i ys_p by (simp add: p_def)
        next
          case ji: False
          have le: "xs ! j \<le> xs ! ((j - 1) div 2)"
            using 1(2) j ji by (simp add: heap_except_up_def)
          show ?thesis
          proof (cases "(j - 1) div 2 = i")
            case True
            have "xs ! j \<le> xs ! p"
              using 1(2) j True i0 by (simp add: heap_except_up_def p_def)
            then show ?thesis using True ys_o[of j] ys_i ji j by simp
          next
            case ni: False
            show ?thesis
            proof (cases "(j - 1) div 2 = p")
              case True
              have "xs ! j \<le> xs ! p" using le True by simp
              also have "xs ! p \<le> xs ! i" using swap by simp
              finally show ?thesis using True ys_o[of j] ys_p ji j by simp
            next
              case False
              then show ?thesis using le ys_o ni ji j by simp
            qed
          qed
        qed
      next
        fix j assume j: "j < length ?ys" "0 < j" and pp: "(j - 1) div 2 = p \<and> 0 < p"
        have jp: "j \<noteq> p" using pp j by arith
        have gp: "(p - 1) div 2 \<noteq> p" "(p - 1) div 2 \<noteq> i" using pp pi by arith+
        have ppl: "xs ! p \<le> xs ! ((p - 1) div 2)"
          using 1(2) p_len pp pi by (simp add: heap_except_up_def)
        show "?ys ! j \<le> ?ys ! ((p - 1) div 2)"
        proof (cases "j = i")
          case True
          then show ?thesis using ys_i ys_o gp ppl by simp
        next
          case False
          then have "xs ! j \<le> xs ! ((j - 1) div 2)"
            using 1(2) j by (simp add: heap_except_up_def)
          then have "xs ! j \<le> xs ! p" using pp by simp
          then show ?thesis using ys_o[of j] False jp ys_o gp ppl by simp
        qed
      qed
      then have "heap_ordered (sift_up ?ys p)"
        using 1(1)[OF i0 p_def swap] p_len by simp
      then show ?thesis using unf swap by simp
    qed
  qed
qed

lemma heap_ordered_push_heap:
  assumes "heap_ordered (butlast xs)"
  shows "heap_ordered (push_heap xs)"
proof (cases "xs = []")
  case True
  then show ?thesis by (simp add: push_heap_def sift_up.simps[of "[]"] heap_ordered_def)
next
  case False
  have "heap_except_up xs (length xs - 1)"
    unfolding heap_except_up_def
  proof (intro allI impI conjI)
    fix j assume j: "j < length xs" "0 < j" "j \<noteq> length xs - 1"
    then have jb: "j < length (butlast xs)" by simp
    then have "butlast xs ! j \<le> butlast xs ! ((j - 1) div 2)"
      using assms j by (simp add: heap_ordered_def)
    moreover have "(j - 1) div 2 < length (butlast xs)" using jb by arith
    ultimately show "xs ! j \<le> xs ! ((j - 1) div 2)"
      using jb by (simp add: nth_butlast)
  next
    fix j assume "j < length xs" "0 < j" "(j - 1) div 2 = length xs - 1 \<and> 0 < length xs - 1"
    then have False by arith
    then show "xs ! j \<le> xs ! ((length xs - 1 - 1) div 2)" ..
  qed
  then show ?thesis using False by (simp add: push_heap_def sift_up_heap)
qed

lemma sift_up_0 [simp]: "sift_up xs 0 = xs"
  by (subst sift_up.simps) simp

lemma mset_push_heap [simp]: "mset (push_heap xs) = mset xs"
proof (cases "xs = []")
  case True
  then show ?thesis by (simp add: push_heap_def)
next
  case False
  then have "length xs - 1 < length xs" by simp
  then show ?thesis unfolding push_heap_def by (rule mset_sift_up)
qed

lemma length_push_heap [simp]: "length (push_heap xs) = length xs"
  by (simp add: push_heap_def)

lemma heap_ordered_root:
  "heap_ordered xs \<Longrightarrow> j < length xs \<Longrightarrow> xs ! j \<le> xs ! 0"
proof (induction j rule: less_induct)
  case (less j)
  show ?case
  proof (cases "j = 0")
    case True
    then show ?thesis by simp
  next
    case False
    then have p: "(j - 1) div 2 < j" by arith
    have "xs ! j \<le> xs ! ((j - 1) div 2)"
      using less.prems False by (simp add: heap_ordered_def)
    also have "\<dots> \<le> xs ! 0"
      using less.IH[OF p less.prems(1)] p less.prems(2) by simp
    finally show ?thesis .
  qed
qed

lemma heap_ordered_hd_Max:
  assumes "heap_ordered xs" "xs \<noteq> []"
  shows "hd xs = Max (set xs)"
proof -
  have "\<forall>x\<in>set xs. x \<le> xs ! 0"
    using heap_ordered_root[OF assms(1)] by (auto simp: in_set_conv_nth)
  moreover have "xs ! 0 \<in> set xs" using assms(2) by simp
  ultimately have "Max (set xs) = xs ! 0" by (intro Max_eqI) auto
  then show ?thesis using assms(2) by (simp add: hd_conv_nth)
qed

lemma heap_ordered_Nil [simp]: "heap_ordered []"
  by (simp add: heap_ordered_def)

lemma last_pop_heap: "xs \<noteq> [] \<Longrightarrow> last (pop_heap xs) = hd xs"
  by (cases xs) (auto simp: pop_heap_def)

lemma butlast_pop_heap:
  "butlast (pop_heap xs) =
     (if length xs \<le> 1 then [] else sift_down ((butlast xs)[0 := last xs]) 0)"
  by (cases xs) (auto simp: pop_heap_def)

lemma mset_butlast_pop_heap:
  assumes "xs \<noteq> []"
  shows "mset (butlast (pop_heap xs)) = mset xs - {#hd xs#}"
proof (cases "length xs \<le> 1")
  case True
  with assms obtain x where "xs = [x]" by (cases xs) auto
  then show ?thesis by (simp add: butlast_pop_heap)
next
  case False
  then obtain x y zs where xs: "xs = x # zs @ [y]"
    by (cases xs; cases "tl xs" rule: rev_cases) auto
  show ?thesis using False by (simp add: butlast_pop_heap xs)
qed

lemma mset_pop_heap [simp]: "mset (pop_heap xs) = mset xs"
proof (cases "xs = []")
  case True
  then show ?thesis by (simp add: pop_heap_def)
next
  case False
  have "pop_heap xs \<noteq> []" using False by (metis length_pop_heap length_0_conv)
  then have "mset (pop_heap xs) = mset (butlast (pop_heap xs)) + {#last (pop_heap xs)#}"
    using append_butlast_last_id[of "pop_heap xs"] mset_append[of "butlast (pop_heap xs)" "[last (pop_heap xs)]"]
    by simp
  then show ?thesis using False by (simp add: mset_butlast_pop_heap last_pop_heap)
qed

lemma heap_ordered_butlast_pop_heap:
  assumes "heap_ordered xs"
  shows "heap_ordered (butlast (pop_heap xs))"
proof (cases "length xs \<le> 1")
  case True
  then show ?thesis by (simp add: butlast_pop_heap)
next
  case False
  let ?ys = "(butlast xs)[0 := last xs]"
  have "heap_except_down ?ys 0 0"
    unfolding heap_except_down_def
  proof (intro allI impI conjI)
    fix j assume j: "j < length ?ys" "0 < j \<and> 0 \<le> (j - 1) div 2" "(j - 1) div 2 \<noteq> 0"
    then have "xs ! j \<le> xs ! ((j - 1) div 2)"
      using assms by (simp add: heap_ordered_def)
    moreover have "(j - 1) div 2 < length (butlast xs)" using j by simp
    ultimately show "?ys ! j \<le> ?ys ! ((j - 1) div 2)"
      using j by (simp add: nth_butlast)
  next
    fix j :: nat assume "(j - 1) div 2 = 0 \<and> (0::nat) < 0 \<and> (0::nat) \<le> (0 - 1) div 2"
    then show "?ys ! j \<le> ?ys ! ((0 - 1) div 2)" by simp
  qed
  then have "heap_from (sift_down ?ys 0) 0" by (rule sift_down_heap) simp
  then show ?thesis using False by (simp add: butlast_pop_heap heap_from_0)
qed

lemma sort_snoc_Max:
  assumes "mset ys = mset xs - {#Max (set xs)#}" "xs \<noteq> []"
  shows "sort ys @ [Max (set xs)] = sort xs"
proof -
  have in_xs: "Max (set xs) \<in># mset xs" using assms(2) by simp
  have "mset (sort ys @ [Max (set xs)]) = mset xs"
    using assms(1) in_xs by simp
  moreover have "set ys \<subseteq> set xs"
    using assms(1) by (metis in_diffD set_mset_mset subsetI)
  then have "sorted (sort ys @ [Max (set xs)])"
    by (auto simp: sorted_append)
  ultimately show ?thesis by (metis properties_for_sort)
qed

lemma sort_heap_sort:
  "heap_ordered xs \<Longrightarrow> sort_heap xs = sort xs"
proof (induction xs rule: sort_heap.induct)
  case (1 xs)
  show ?case
  proof (cases "length xs \<le> 1")
    case True
    then have "sort_heap xs = xs" by (subst sort_heap.simps) simp
    moreover have "sort xs = xs" using True by (cases xs) auto
    ultimately show ?thesis by simp
  next
    case False
    then have ne: "xs \<noteq> []" by auto
    let ?ys = "pop_heap xs"
    have "sort_heap xs = sort_heap (butlast ?ys) @ [last ?ys]"
      using False by (subst sort_heap.simps) (simp add: Let_def)
    also have "sort_heap (butlast ?ys) = sort (butlast ?ys)"
      using 1(1)[OF False refl] heap_ordered_butlast_pop_heap[OF 1(2)] by simp
    also have "last ?ys = Max (set xs)"
      using ne 1(2) by (simp add: last_pop_heap heap_ordered_hd_Max)
    also have "sort (butlast ?ys) @ [Max (set xs)] = sort xs"
      using ne 1(2) by (intro sort_snoc_Max) (simp_all add: mset_butlast_pop_heap heap_ordered_hd_Max)
    finally show ?thesis .
  qed
qed

subsection \<open>The candidate loop\<close>

text \<open>
  The four ways through the body of the loop, the invariant of the loop, and the
  selection it maintains: the sorted items are the first \<open>K\<close> of the sorted inputs.
\<close>

lemma step_rejected:
  "\<not> accepts d (fst pos) \<Longrightarrow> expand_step K d w s pos = s"
  by (auto simp: expand_step_def accepts_def split: option.splits)

lemma step_below:
  "accepts d (fst pos) \<Longrightarrow> w (snd pos) (fst pos) \<le> min_wt s \<Longrightarrow>
   expand_step K d w s pos = s\<lparr>ebound := ebound s + 1\<rparr>"
  by (auto simp: expand_step_def accepts_def Let_def split: option.splits)

lemma step_room:
  "handed d w s pos \<Longrightarrow> length (items s) < K \<Longrightarrow>
   expand_step K d w s pos = s\<lparr>ebound := ebound s + 1, items := items s @ [candidate w pos]\<rparr>"
  by (auto simp: expand_step_def handed_def accepts_def candidate_def Let_def split: option.splits)

lemma step_overflow:
  "handed d w s pos \<Longrightarrow> K \<le> length (items s) \<Longrightarrow>
   expand_step K d w s pos =
     s\<lparr>ebound := ebound s + 1,
       items := butlast (pop_heap (rebuild (is_heap s) (items s @ [candidate w pos]))),
       is_heap := True,
       min_wt := wt (hd (butlast (pop_heap (rebuild (is_heap s) (items s @ [candidate w pos])))))\<rparr>"
  by (auto simp: expand_step_def handed_def accepts_def candidate_def rebuild_def Let_def
      split: option.splits)

lemma expand_loop_snoc:
  "expand_loop K d w s (xs @ [x]) = expand_step K d w (expand_loop K d w s xs) x"
  by (induction xs arbitrary: s) simp_all

lemma selector_inputs_snoc:
  "selector_inputs K d w s (xs @ [x]) =
     selector_inputs K d w s xs @
     (if handed d w (expand_loop K d w s xs) x then [candidate w x] else [])"
  by (induction xs arbitrary: s) simp_all

lemma heap_ordered_rebuild:
  "(h \<Longrightarrow> heap_ordered xs) \<Longrightarrow> heap_ordered (rebuild h (xs @ [c]))"
  by (auto simp: rebuild_def heap_ordered_make_heap intro: heap_ordered_push_heap)

lemma mset_rebuild [simp]: "mset (rebuild h xs) = mset xs"
  by (simp add: rebuild_def)

lemma length_rebuild [simp]: "length (rebuild h xs) = length xs"
  by (simp add: rebuild_def)

lemma set_rebuild [simp]: "set (rebuild h xs) = set xs"
  by (metis mset_rebuild set_mset_mset)

lemma set_butlast_pop_heap: "set (butlast (pop_heap xs)) \<subseteq> set xs"
  by (metis in_set_butlastD mset_pop_heap set_mset_mset subsetI)

lemma loop_inv_step:
  assumes K: "0 < K" and inv: "loop_inv K m0 s"
  shows "loop_inv K m0 (expand_step K d w s pos)"
proof (cases "handed d w s pos")
  case False
  then consider "\<not> accepts d (fst pos)"
    | "accepts d (fst pos)" "w (snd pos) (fst pos) \<le> min_wt s"
    by (cases "accepts d (fst pos)") (auto simp: handed_def)
  then show ?thesis
  proof cases
    case 1
    then show ?thesis using inv by (simp add: step_rejected)
  next
    case 2
    then show ?thesis using inv by (simp add: step_below loop_inv_def)
  qed
next
  case True
  let ?c = "candidate w pos"
  have wc: "m0 < wt ?c"
    using True inv by (auto simp: handed_def candidate_def loop_inv_def)
  show ?thesis
  proof (cases "length (items s) < K")
    case room: True
    then have "\<not> is_heap s" using inv by (auto simp: loop_inv_def split: if_splits)
    then show ?thesis
      using inv room wc True by (auto simp: step_room loop_inv_def)
  next
    case False
    then have len: "length (items s) = K" and KL: "K \<le> length (items s)"
      using inv by (auto simp: loop_inv_def)
    let ?hs = "rebuild (is_heap s) (items s @ [?c])"
    let ?ys = "butlast (pop_heap ?hs)"
    have h: "heap_ordered ?hs"
      using inv by (intro heap_ordered_rebuild) (auto simp: loop_inv_def)
    have 1: "heap_ordered ?ys" using h by (rule heap_ordered_butlast_pop_heap)
    have 2: "length ?ys = K" using len by simp
    have "set ?ys \<subseteq> set (items s) \<union> {?c}"
      using set_butlast_pop_heap[of ?hs] by simp
    then have 3: "\<forall>x\<in>set ?ys. m0 < wt x"
      using inv wc by (auto simp: loop_inv_def)
    have "?ys \<noteq> []" using 2 K by (metis length_0_conv less_numeral_extra(3))
    then have "hd ?ys \<in> set ?ys" by simp
    then have 4: "m0 \<le> wt (hd ?ys)" using 3 by (meson less_imp_le)
    show ?thesis
      using 1 2 3 4 by (simp add: step_overflow[OF True KL] loop_inv_def)
  qed
qed

lemma loop_inv_loop:
  "0 < K \<Longrightarrow> loop_inv K m0 s \<Longrightarrow> loop_inv K m0 (expand_loop K d w s xs)"
  by (induction xs arbitrary: s) (simp_all add: loop_inv_step)

lemma loop_inv_init: "items this = [] \<Longrightarrow> loop_inv K m0 (init_locals this m0)"
  by (simp add: loop_inv_def init_locals_def)

lemma sort_snoc: "sort (xs @ [x]) = insort x (sort xs)"
  by (rule properties_for_sort) (simp_all add: sorted_insort)

lemma sort_cong_mset: "mset xs = mset ys \<Longrightarrow> sort xs = sort ys"
  by (metis properties_for_sort sorted_sort mset_sort)

lemma butlast_insort_take:
  "K \<le> length ys \<Longrightarrow> butlast (insort c (take K ys)) = take K (insort c ys)"
proof (induction ys arbitrary: K)
  case Nil
  then show ?case by simp
next
  case (Cons y ys)
  show ?case
  proof (cases K)
    case 0
    then show ?thesis by simp
  next
    case (Suc k)
    then have k: "k \<le> length ys" using Cons.prems by simp
    have ne: "insort c (take k ys) \<noteq> []" by (metis insort_not_Nil)
    show ?thesis
    proof (cases "c \<le> y")
      case True
      have "butlast (y # take k ys) = take k (y # ys)"
        using k by (metis butlast_take length_Cons diff_Suc_1 take_Suc_Cons Suc_le_mono)
      then show ?thesis using True Suc by simp
    next
      case False
      then show ?thesis using Suc Cons.IH[OF k] ne by simp
    qed
  qed
qed

lemma kbest_step:
  assumes K: "0 < K" and inv: "loop_inv K m0 s"
    and best: "sort (items s) = take K (sort P)"
  shows "sort (items (expand_step K d w s pos)) =
         take K (sort (P @ (if handed d w s pos then [candidate w pos] else [])))"
proof (cases "handed d w s pos")
  case False
  then consider "\<not> accepts d (fst pos)"
    | "accepts d (fst pos)" "w (snd pos) (fst pos) \<le> min_wt s"
    by (cases "accepts d (fst pos)") (auto simp: handed_def)
  then show ?thesis
    using False best by cases (simp_all add: step_rejected step_below)
next
  case True
  let ?c = "candidate w pos"
  show ?thesis
  proof (cases "length (items s) < K")
    case room: True
    have "length (take K (sort P)) < K"
      using room best by (metis length_sort)
    then have lenP: "length P < K" by simp
    then have "sort (items s) = sort P" using best by simp
    then have "mset (items s) = mset P" by (metis mset_sort)
    then have "sort (items s @ [?c]) = sort (P @ [?c])"
      by (intro sort_cong_mset) simp
    then show ?thesis using True room lenP by (simp add: step_room)
  next
    case False
    then have len: "length (items s) = K" and KL: "K \<le> length (items s)"
      using inv by (auto simp: loop_inv_def)
    let ?hs = "rebuild (is_heap s) (items s @ [?c])"
    let ?ys = "butlast (pop_heap ?hs)"
    have h: "heap_ordered ?hs"
      using inv by (intro heap_ordered_rebuild) (auto simp: loop_inv_def)
    have ne: "?hs \<noteq> []" by (metis length_rebuild length_0_conv snoc_eq_iff_butlast)
    have "mset ?ys = mset ?hs - {#Max (set ?hs)#}"
      using ne h by (simp add: mset_butlast_pop_heap heap_ordered_hd_Max)
    then have "sort ?ys @ [Max (set ?hs)] = sort ?hs"
      using ne by (rule sort_snoc_Max)
    then have "sort ?ys = butlast (sort ?hs)" by (metis butlast_snoc)
    also have "sort ?hs = sort (items s @ [?c])" by (intro sort_cong_mset) simp
    also have "\<dots> = insort ?c (take K (sort P))" using best by (simp add: sort_snoc)
    also have "butlast \<dots> = take K (insort ?c (sort P))"
    proof (rule butlast_insort_take)
      have "length (take K (sort P)) = K" using best len by (metis length_sort)
      then show "K \<le> length (sort P)" by simp
    qed
    finally show ?thesis using True by (simp add: step_overflow[OF True KL] sort_snoc)
  qed
qed

lemma kbest_loop:
  assumes "0 < K"
  shows "loop_inv K m0 s \<Longrightarrow> sort (items s) = take K (sort P) \<Longrightarrow>
         sort (items (expand_loop K d w s xs)) =
           take K (sort (P @ selector_inputs K d w s xs))"
proof (induction xs arbitrary: s P)
  case Nil
  then show ?case by simp
next
  case (Cons x xs)
  have "sort (items (expand_loop K d w (expand_step K d w s x) xs)) =
        take K (sort ((P @ (if handed d w s x then [candidate w x] else [])) @
                      selector_inputs K d w (expand_step K d w s x) xs))"
    using assms Cons.prems by (intro Cons.IH loop_inv_step kbest_step)
  then show ?case by simp
qed

lemma sort_items_sort:
  "loop_inv K m0 s \<Longrightarrow> sort_items s = sort (items s)"
  by (auto simp: sort_items_def loop_inv_def sort_heap_sort split: if_splits)

subsection \<open>expand as a whole\<close>

text \<open>
  \<^verbatim>\<open>expand\<close> as a whole: with its preconditions met it returns the sorted items of
  the loop over the merged stream, or it passes on the exception of the construction.
\<close>

lemma expand_success:
  assumes "0 < K" "rset \<noteq> {||}" "ebound this = 0" "items this = []"
    and "build_termlist_tree db rset m = (Inr t, m')"
  shows "expand K db rset d w m0 this m =
           (Inr (),
            \<lparr>ebound = ebound (expand_loop K d w (init_locals this m0) (stream t)),
             items = sort_items (expand_loop K d w (init_locals this m0) (stream t))\<rparr>,
            delete_tree t m')"
  using assms by (simp add: expand_def Assert_def init_locals_def Let_def)

lemma expand_failure:
  assumes "0 < K" "rset \<noteq> {||}" "ebound this = 0" "items this = []"
    and "build_termlist_tree db rset m = (Inl e, m')"
  shows "expand K db rset d w m0 this m = (Inl e, this, m')"
  using assms by (simp add: expand_def Assert_def)

lemma build_cases:
  obtains (ok) t m' where "build_termlist_tree db rset m = (Inr t, m')"
  | (failed) e m' where "build_termlist_tree db rset m = (Inl e, m')"
  by (cases "build_termlist_tree db rset m"; cases "fst (build_termlist_tree db rset m)") auto

lemma empty_eset_simps [simp]: "ebound empty_eset = 0" "items empty_eset = []"
  by (simp_all add: empty_eset_def)

lemma length_sort_items:
  "loop_inv K m0 s \<Longrightarrow> length (sort_items s) = length (items s)"
  by (simp add: sort_items_sort)

lemma expand_items_le:
  assumes "0 < K" "rset \<noteq> {||}"
  shows "length (items (fst (snd (expand K db rset d w m0 empty_eset m)))) \<le> K"
proof (cases db rset m rule: build_cases)
  case (ok t m')
  let ?s = "expand_loop K d w (init_locals empty_eset m0) (stream t)"
  have inv: "loop_inv K m0 ?s"
    using assms(1) by (intro loop_inv_loop loop_inv_init) simp_all
  then have "length (sort_items ?s) \<le> K"
    by (simp add: length_sort_items loop_inv_def)
  then show ?thesis using assms ok by (simp add: expand_success)
next
  case (failed e m')
  then show ?thesis using assms by (simp add: expand_failure)
qed

lemmas eval_loop =
  expand_step_def init_locals_def handed_def accepts_def candidate_def Let_def

text \<open>Once the vector is a heap it stays one, and a heap holds exactly K items.\<close>

lemma expand_loop_append:
  "expand_loop K d w s (xs @ ys) = expand_loop K d w (expand_loop K d w s xs) ys"
  by (induction xs arbitrary: s) simp_all

lemma expand_loop_take_Suc:
  "n < length xs \<Longrightarrow>
   expand_loop K d w s (take (Suc n) xs) = expand_step K d w (expand_loop K d w s (take n xs)) (xs ! n)"
  by (simp add: take_Suc_conv_app_nth expand_loop_snoc)

lemma step_cases [case_names rejected below room overflow]:
  obtains "\<not> accepts d (fst pos)"
  | "accepts d (fst pos)" "w (snd pos) (fst pos) \<le> min_wt s"
  | "handed d w s pos" "length (items s) < K"
  | "handed d w s pos" "K \<le> length (items s)"
  by (cases "accepts d (fst pos)"; cases "w (snd pos) (fst pos) \<le> min_wt s";
      cases "length (items s) < K") (auto simp: handed_def)

lemma is_heap_step: "is_heap s \<Longrightarrow> is_heap (expand_step K d w s pos)"
  by (rule step_cases[where d = d and pos = pos and w = w and s = s and K = K])
     (simp_all add: step_rejected step_below step_room step_overflow)

lemma is_heap_loop: "is_heap s \<Longrightarrow> is_heap (expand_loop K d w s xs)"
  by (induction xs arbitrary: s) (simp_all add: is_heap_step)

lemma is_heap_overflow: "overflows K d w s pos \<Longrightarrow> is_heap (expand_step K d w s pos)"
  by (simp add: overflows_def step_overflow)

text \<open>The candidate count grows by one at every accepted term and bounds the size.\<close>

lemma ebound_step:
  "ebound (expand_step K d w s pos) = ebound s + (if accepts d (fst pos) then 1 else 0)"
  by (rule step_cases[where d = d and pos = pos and w = w and s = s and K = K])
     (simp_all add: step_rejected step_below step_room step_overflow handed_def)

lemma ebound_loop:
  "ebound (expand_loop K d w s xs) =
     ebound s + length (filter (\<lambda>pos. accepts d (fst pos)) xs)"
  by (induction xs arbitrary: s) (simp_all add: ebound_step)

lemma size_le_ebound_step:
  "length (items s) \<le> ebound s \<Longrightarrow>
   length (items (expand_step K d w s pos)) \<le> ebound (expand_step K d w s pos)"
  by (rule step_cases[where d = d and pos = pos and w = w and s = s and K = K])
     (simp_all add: step_rejected step_below step_room step_overflow)

lemma size_le_ebound_loop:
  "length (items s) \<le> ebound s \<Longrightarrow>
   length (items (expand_loop K d w s xs)) \<le> ebound (expand_loop K d w s xs)"
  by (induction xs arbitrary: s) (simp_all add: size_le_ebound_step)

text \<open>An overflowing pass evicts the greatest descriptor and reads the new threshold.\<close>

lemma min_wt_overflow:
  assumes "0 < K" "loop_inv K m0 s" "handed d w s pos" "K \<le> length (items s)"
  shows "mset (items (expand_step K d w s pos)) =
           mset (items s) + {#candidate w pos#} - {#Max (set (items s @ [candidate w pos]))#}"
    and "min_wt (expand_step K d w s pos) = wt (Max (set (items (expand_step K d w s pos))))"
proof -
  let ?c = "candidate w pos"
  let ?hs = "rebuild (is_heap s) (items s @ [?c])"
  let ?ys = "butlast (pop_heap ?hs)"
  have st: "items (expand_step K d w s pos) = ?ys"
    "min_wt (expand_step K d w s pos) = wt (hd ?ys)"
    by (simp_all add: step_overflow[OF assms(3,4)])
  have h: "heap_ordered ?hs"
    using assms(2) by (intro heap_ordered_rebuild) (auto simp: loop_inv_def)
  have ne: "?hs \<noteq> []" by (metis length_rebuild length_0_conv snoc_eq_iff_butlast)
  have "mset ?ys = mset ?hs - {#Max (set ?hs)#}"
    using ne h by (simp add: mset_butlast_pop_heap heap_ordered_hd_Max)
  then show "mset (items (expand_step K d w s pos)) =
           mset (items s) + {#?c#} - {#Max (set (items s @ [?c]))#}"
    by (simp add: st)
  have "loop_inv K m0 (expand_step K d w s pos)"
    using assms(1,2) by (rule loop_inv_step)
  then have "heap_ordered ?ys" "length ?ys = K"
    by (simp_all add: loop_inv_def step_overflow[OF assms(3,4)])
  moreover then have "?ys \<noteq> []" using assms(1) by (metis length_0_conv less_numeral_extra(3))
  ultimately have "hd ?ys = Max (set ?ys)" by (intro heap_ordered_hd_Max)
  then show "min_wt (expand_step K d w s pos) = wt (Max (set (items (expand_step K d w s pos))))"
    by (simp add: st)
qed

subsection \<open>The construction of the tree\<close>

text \<open>What the loop of opens allocates and returns, and what a failed open leaves.\<close>

lemma fold_delete_ptr:
  "deleted (fold delete_ptr ps m) = deleted m @ ps"
  "next_addr (fold delete_ptr ps m) = next_addr m"
  "termlists (fold delete_ptr ps m) p = (if p \<in> set ps then None else termlists m p)"
  by (induction ps arbitrary: m) (simp_all add: delete_ptr_def)

lemma open_termlists_spec:
  "open_termlists db dids tls m = (r, tls', m') \<Longrightarrow>
   tls' = tls @ [next_addr m ..< next_addr m + length (takeWhile (\<lambda>d. db d \<noteq> None) dids)]
   \<and> next_addr m' = next_addr m + length (takeWhile (\<lambda>d. db d \<noteq> None) dids)
   \<and> deleted m' = deleted m
   \<and> (\<forall>p. termlists m' p =
           (if next_addr m \<le> p \<and> p < next_addr m + length (takeWhile (\<lambda>d. db d \<noteq> None) dids)
            then db (dids ! (p - next_addr m)) else termlists m p))
   \<and> r = (if length (takeWhile (\<lambda>d. db d \<noteq> None) dids) = length dids then Inr ()
          else Inl (OpenError (dids ! length (takeWhile (\<lambda>d. db d \<noteq> None) dids))))"
proof (induction dids arbitrary: tls m)
  case Nil
  then show ?case by auto
next
  case (Cons did dids)
  show ?case
  proof (cases "db did")
    case None
    then show ?thesis using Cons.prems by (auto simp: open_term_list_direct_def)
  next
    case (Some ts)
    define m1 where
      "m1 = m\<lparr>termlists := (termlists m)(next_addr m \<mapsto> ts), next_addr := Suc (next_addr m)\<rparr>"
    define n where "n = length (takeWhile (\<lambda>d. db d \<noteq> None) dids)"
    have "open_termlists db dids (tls @ [next_addr m]) m1 = (r, tls', m')"
      using Cons.prems Some by (simp add: open_term_list_direct_def m1_def)
    note IH = Cons.IH[OF this, folded n_def]
    have m1: "next_addr m1 = Suc (next_addr m)" "deleted m1 = deleted m"
      "termlists m1 = (termlists m)(next_addr m \<mapsto> ts)"
      by (simp_all add: m1_def)
    have n': "length (takeWhile (\<lambda>d. db d \<noteq> None) (did # dids)) = Suc n"
      using Some by (simp add: n_def)
    have 1: "tls' = tls @ [next_addr m ..< next_addr m + Suc n]"
      using IH m1 by (simp add: upt_rec[of "next_addr m"])
    have 2: "next_addr m' = next_addr m + Suc n" using IH m1 by simp
    have 3: "deleted m' = deleted m" using IH m1 by simp
    have 4: "termlists m' p =
           (if next_addr m \<le> p \<and> p < next_addr m + Suc n
            then db ((did # dids) ! (p - next_addr m)) else termlists m p)" for p
    proof (cases "p = next_addr m")
      case True
      then show ?thesis using IH m1 Some by simp
    next
      case False
      then show ?thesis using IH m1 by (auto simp: nth_Cons' Suc_diff_le)
    qed
    have 5: "r = (if Suc n = length (did # dids) then Inr ()
                  else Inl (OpenError ((did # dids) ! Suc n)))"
      using IH by simp
    show ?thesis unfolding n' using 1 2 3 4 5 by blast
  qed
qed

lemma count_list_distinct: "distinct xs \<Longrightarrow> x \<in> set xs \<Longrightarrow> count_list xs x = 1"
  by (induction xs) auto

lemma build_termlist_tree_failure:
  assumes "rset \<noteq> {||}" and "did |\<in>| rset" and "db did = None"
  defines "dids \<equiv> sorted_list_of_fset rset"
  defines "n \<equiv> length (takeWhile (\<lambda>d. db d \<noteq> None) dids)"
  shows "n < length dids" and "db (dids ! n) = None"
    and "fst (snd (open_termlists db dids [] m)) = [next_addr m ..< next_addr m + n]"
    and "fst (build_termlist_tree db rset m) = Inl (OpenError (dids ! n))"
    and "deleted (snd (build_termlist_tree db rset m)) =
           deleted m @ [next_addr m ..< next_addr m + n]"
    and "next_addr (snd (build_termlist_tree db rset m)) = next_addr m + n"
    and "termlists (snd (build_termlist_tree db rset m)) p =
           (if next_addr m \<le> p \<and> p < next_addr m + n then None else termlists m p)"
proof -
  have "did \<in> set dids" using assms(2) by (simp add: dids_def)
  then have "takeWhile (\<lambda>d. db d \<noteq> None) dids \<noteq> dids"
    using assms(3) by (auto simp: takeWhile_eq_all_conv)
  then show n: "n < length dids"
    unfolding n_def by (metis length_takeWhile_le le_neq_implies_less takeWhile_eq_take take_all)
  then show "db (dids ! n) = None"
    unfolding n_def using nth_length_takeWhile[of "\<lambda>d. db d \<noteq> None" dids] by simp
  obtain r tls m1 where o: "open_termlists db dids [] m = (r, tls, m1)"
    by (cases "open_termlists db dids [] m") auto
  note spec = open_termlists_spec[OF o, folded n_def]
  have r: "r = Inl (OpenError (dids ! n))" using spec n by simp
  have tls: "tls = [next_addr m ..< next_addr m + n]" using spec by simp
  show "fst (snd (open_termlists db dids [] m)) = [next_addr m ..< next_addr m + n]"
    using o tls by simp
  have b: "build_termlist_tree db rset m = (Inl (OpenError (dids ! n)), fold delete_ptr tls m1)"
    using assms(1) o r by (simp add: build_termlist_tree_def Assert_def dids_def)
  show "fst (build_termlist_tree db rset m) = Inl (OpenError (dids ! n))"
    using b by simp
  show "deleted (snd (build_termlist_tree db rset m)) =
           deleted m @ [next_addr m ..< next_addr m + n]"
    using b spec by (simp add: fold_delete_ptr)
  show "next_addr (snd (build_termlist_tree db rset m)) = next_addr m + n"
    using b spec by (simp add: fold_delete_ptr)
  show "termlists (snd (build_termlist_tree db rset m)) p =
           (if next_addr m \<le> p \<and> p < next_addr m + n then None else termlists m p)"
    using b spec by (simp add: fold_delete_ptr)
qed

subsection \<open>The merged stream and the result\<close>

text \<open>
  The merged stream of strictly ascending term lists is strictly ascending, so no term
  comes twice; the result is the sorted list of the selector inputs cut at K.
\<close>

lemma fst_set_or_termlist:
  "fst ` set (or_termlist xs ys) = fst ` set xs \<union> fst ` set ys"
  by (induction xs ys rule: or_termlist.induct) auto

lemma sorted_or_termlist:
  "sorted_wrt (<) (map fst xs) \<Longrightarrow> sorted_wrt (<) (map fst ys) \<Longrightarrow>
   sorted_wrt (<) (map fst (or_termlist xs ys))"
proof (induction xs ys rule: or_termlist.induct)
  case (1 ys)
  then show ?case by simp
next
  case (2 x xs)
  then show ?case by simp
next
  case (3 s f xs t g ys)
  have xs: "\<forall>u\<in>fst ` set xs. s < u" "sorted_wrt (<) (map fst xs)"
    and ys: "\<forall>u\<in>fst ` set ys. t < u" "sorted_wrt (<) (map fst ys)"
    using 3(4,5) by auto
  consider (lt) "s < t" | (gt) "\<not> s < t" "t < s" | (eq) "\<not> s < t" "\<not> t < s"
    by blast
  then show ?case
  proof cases
    case lt
    have "\<forall>u\<in>fst ` set (or_termlist xs ((t, g) # ys)). s < u"
      unfolding fst_set_or_termlist using xs(1) ys(1) lt by auto
    moreover have "sorted_wrt (<) (map fst (or_termlist xs ((t, g) # ys)))"
      using 3(1)[OF lt xs(2) 3(5)] .
    ultimately show ?thesis using lt by simp
  next
    case gt
    have "\<forall>u\<in>fst ` set (or_termlist ((s, f) # xs) ys). t < u"
      unfolding fst_set_or_termlist using xs(1) ys(1) gt by auto
    moreover have "sorted_wrt (<) (map fst (or_termlist ((s, f) # xs) ys))"
      using 3(2)[OF gt 3(4) ys(2)] .
    ultimately show ?thesis using gt by simp
  next
    case eq
    then have st: "s = t" by simp
    have "\<forall>u\<in>fst ` set (or_termlist xs ys). s < u"
      unfolding fst_set_or_termlist using xs(1) ys(1) st by auto
    moreover have "sorted_wrt (<) (map fst (or_termlist xs ys))"
      using 3(3)[OF eq xs(2) ys(2)] .
    ultimately show ?thesis using eq by simp
  qed
qed

lemma sorted_foldr_or_termlist:
  "(\<forall>ts\<in>set tss. sorted_wrt (<) (map fst ts)) \<Longrightarrow>
   sorted_wrt (<) (map fst (foldr or_termlist tss []))"
  by (induction tss) (simp_all add: sorted_or_termlist)

lemma build_termlist_tree_sorted:
  assumes "build_termlist_tree db rset m = (Inr t, m')"
    and "\<And>did ts. did |\<in>| rset \<Longrightarrow> db did = Some ts \<Longrightarrow> sorted_wrt (<) (map fst ts)"
  shows "sorted_wrt (<) (map fst (stream t))"
proof -
  let ?dids = "sorted_list_of_fset rset"
  obtain r tls m1 where o: "open_termlists db ?dids [] m = (r, tls, m1)"
    by (cases "open_termlists db ?dids [] m") auto
  define n where "n = length (takeWhile (\<lambda>d. db d \<noteq> None) ?dids)"
  note spec = open_termlists_spec[OF o, folded n_def]
  have t: "t = make_termlist_merger tls m1" and r: "r = Inr ()"
    using assms(1) o
    by (auto simp: build_termlist_tree_def Assert_def split: if_splits sum.splits)
  have n: "n = length ?dids" using spec r by (auto split: if_splits)
  have "sorted_wrt (<) (map fst (case termlists m1 p of Some ts \<Rightarrow> ts | None \<Rightarrow> []))"
    if "p \<in> set tls" for p
  proof (cases "termlists m1 p")
    case None
    then show ?thesis by simp
  next
    case (Some ts)
    have p: "next_addr m \<le> p" "p < next_addr m + n" using that spec by auto
    then have "p - next_addr m < length ?dids" using n by simp
    then have "?dids ! (p - next_addr m) \<in> set ?dids" by (rule nth_mem)
    then have "?dids ! (p - next_addr m) |\<in>| rset" by simp
    moreover have "db (?dids ! (p - next_addr m)) = Some ts"
      using spec p Some by simp
    ultimately show ?thesis using assms(2) Some by simp
  qed
  then have "sorted_wrt (<) (map fst (foldr or_termlist
      (map (\<lambda>p. case termlists m1 p of Some ts \<Rightarrow> ts | None \<Rightarrow> []) tls) []))"
    by (intro sorted_foldr_or_termlist) auto
  then show ?thesis by (simp add: t make_termlist_merger_def)
qed

lemma tname_candidate [simp]: "tname (candidate w pos) = fst pos"
  by (simp add: candidate_def)

lemma tname_selector_inputs:
  "tname ` set (selector_inputs K d w s xs) \<subseteq> fst ` set xs"
  by (induction xs arbitrary: s) auto

lemma distinct_selector_inputs:
  "distinct (map fst xs) \<Longrightarrow> distinct (map tname (selector_inputs K d w s xs))"
proof (induction xs arbitrary: s)
  case Nil
  then show ?case by simp
next
  case (Cons x xs)
  have "fst x \<notin> tname ` set (selector_inputs K d w (expand_step K d w s x) xs)"
    using Cons.prems tname_selector_inputs[of K d w "expand_step K d w s x" xs] by auto
  then show ?case using Cons by auto
qed

lemma expand_result:
  assumes "0 < K" "rset \<noteq> {||}" "build_termlist_tree db rset m = (Inr t, m')"
  shows "items (fst (snd (expand K db rset d w m0 empty_eset m))) =
           take K (sort (selector_inputs K d w (init_locals empty_eset m0) (stream t)))"
proof -
  let ?i = "init_locals empty_eset m0"
  let ?f = "expand_loop K d w ?i (stream t)"
  have inv0: "loop_inv K m0 ?i" by (intro loop_inv_init) simp
  have inv: "loop_inv K m0 ?f" using assms(1) inv0 by (rule loop_inv_loop)
  have "sort (items ?i) = take K (sort [])" by (simp add: init_locals_def)
  then have "sort (items ?f) = take K (sort ([] @ selector_inputs K d w ?i (stream t)))"
    using assms(1) inv0 by (intro kbest_loop)
  then show ?thesis
    using assms inv by (simp add: expand_success sort_items_sort)
qed

subsection \<open>The iterator\<close>

text \<open>A traversal from a valid cursor dereferences the items from its rank on, in order.\<close>

lemma deref_in_range:
  "0 < off_from_end it \<Longrightarrow> off_from_end it \<le> length (items (internal (eset it))) \<Longrightarrow>
   deref it = Inr (items (internal (eset it))
                     ! (length (items (internal (eset it))) - off_from_end it))"
  by (simp add: deref_def Assert_def)

lemma visit_drop:
  "off_from_end it \<le> length (items (internal (eset it))) \<Longrightarrow>
   visit it = map Inr (drop (length (items (internal (eset it))) - off_from_end it)
                            (items (internal (eset it))))"
proof (induction it rule: visit.induct)
  case (1 it)
  let ?xs = "items (internal (eset it))"
  show ?case
  proof (cases "at_end it")
    case True
    then show ?thesis by (subst visit.simps) (simp add: at_end_def)
  next
    case False
    then have pos: "0 < off_from_end it" by (simp add: at_end_def)
    have "visit (advance it) =
            map Inr (drop (length ?xs - (off_from_end it - 1)) ?xs)"
      using 1(1)[OF False] 1(2) by (simp add: advance_def)
    moreover have "drop (length ?xs - off_from_end it) ?xs =
            ?xs ! (length ?xs - off_from_end it) # drop (length ?xs - (off_from_end it - 1)) ?xs"
    proof -
      have k: "length ?xs - off_from_end it < length ?xs" using pos 1(2) by simp
      have "length ?xs - (off_from_end it - 1) = Suc (length ?xs - off_from_end it)"
        using pos 1(2) by simp
      then show ?thesis using Cons_nth_drop_Suc[OF k] by simp
    qed
    ultimately show ?thesis
      using False pos 1(2) by (subst visit.simps) (simp add: deref_in_range)
  qed
qed

lemma sorted_expand_items:
  "sorted (items (fst (snd (expand K db rset d w m0 empty_eset m))))"
proof (cases "0 < K \<and> rset \<noteq> {||}")
  case False
  then show ?thesis by (auto simp: expand_def Assert_def)
next
  case True
  show ?thesis
  proof (cases db rset m rule: build_cases)
    case (ok t m')
    then show ?thesis using True by (simp add: expand_result sorted_wrt_take)
  next
    case (failed e m')
    then show ?thesis using True by (simp add: expand_failure)
  qed
qed

subsection \<open>The threshold loses no candidate\<close>

text \<open>
  The threshold test rejects a candidate whose weight is at most the weight of the worst
  retained item. In a stream of ascending terms such a candidate is worse than every
  retained item: with an equal weight its term is the later one. So the selector holds
  the K best of all eligible candidates, not only of those it was handed.
\<close>

lemma take_insort_greater:
  "K \<le> length ys \<Longrightarrow> \<forall>x\<in>set (take K ys). x < c \<Longrightarrow> take K (insort c ys) = take K ys"
proof (induction ys arbitrary: K)
  case Nil
  then show ?case by simp
next
  case (Cons y ys)
  show ?case
  proof (cases K)
    case 0
    then show ?thesis by simp
  next
    case (Suc k)
    then have "y < c" "k \<le> length ys" "\<forall>x\<in>set (take k ys). x < c"
      using Cons.prems by auto
    then show ?thesis using Suc Cons.IH[of k] by auto
  qed
qed

lemma eligible_snoc:
  "eligible d w m0 (xs @ [x]) =
     eligible d w m0 xs @
     (if accepts d (fst x) \<and> m0 < w (snd x) (fst x) then [candidate w x] else [])"
  by (simp add: eligible_def candidate_def)

lemma tname_eligible: "tname ` set (eligible d w m0 xs) \<subseteq> fst ` set xs"
  by (force simp: eligible_def)

lemma global_kbest_step:
  assumes K: "0 < K" and inv: "loop_inv K m0 s"
    and best: "sort (items s) = take K (sort (eligible d w m0 xs))"
    and later: "\<forall>y\<in>set xs. fst y < fst x"
  shows "sort (items (expand_step K d w s x)) = take K (sort (eligible d w m0 (xs @ [x])))"
proof -
  let ?E = "eligible d w m0 xs"
  let ?c = "candidate w x"
  have m0: "m0 \<le> min_wt s" using inv by (simp add: loop_inv_def)
  consider (handed) "handed d w s x"
    | (rejected) "\<not> accepts d (fst x)"
    | (low) "accepts d (fst x)" "w (snd x) (fst x) \<le> m0"
    | (tie) "accepts d (fst x)" "m0 < w (snd x) (fst x)" "w (snd x) (fst x) \<le> min_wt s"
    by (cases "accepts d (fst x)"; cases "w (snd x) (fst x) \<le> m0";
        cases "w (snd x) (fst x) \<le> min_wt s") (auto simp: handed_def)
  then show ?thesis
  proof cases
    case handed
    then have "accepts d (fst x) \<and> m0 < w (snd x) (fst x)"
      using m0 by (auto simp: handed_def)
    then show ?thesis
      using kbest_step[OF K inv best, of d w x] handed by (simp add: eligible_snoc)
  next
    case rejected
    then show ?thesis using best by (simp add: step_rejected eligible_snoc)
  next
    case low
    then have "w (snd x) (fst x) \<le> min_wt s" using m0 by simp
    then show ?thesis using low best by (simp add: step_below eligible_snoc)
  next
    case tie
    then have heap: "is_heap s" using inv by (auto simp: loop_inv_def split: if_splits)
    then have h: "heap_ordered (items s)" and len: "length (items s) = K"
      and mw: "min_wt s = wt (hd (items s))"
      using inv by (simp_all add: loop_inv_def)
    have ne: "items s \<noteq> []" using len K by (metis length_0_conv less_numeral_extra(3))
    let ?W = "hd (items s)"
    have W: "?W = Max (set (items s))" using h ne by (rule heap_ordered_hd_Max)
    have "?W \<in> set (sort (items s))" using ne by simp
    then have "?W \<in> set ?E" using best by (metis in_set_takeD set_sort)
    then have "tname ?W \<in> fst ` set xs" using tname_eligible by blast
    then have "tname ?W < fst x" using later by auto
    then have Wc: "?W < ?c"
      using tie(3) mw by (auto simp: less_ExpandTerm_def candidate_def)
    have "\<forall>y\<in>set (take K (sort ?E)). y < ?c"
    proof
      fix y assume "y \<in> set (take K (sort ?E))"
      then have "y \<in> set (items s)" using best by (metis set_sort)
      then have "y \<le> ?W" unfolding W by simp
      then show "y < ?c" using Wc by simp
    qed
    moreover have "K \<le> length (sort ?E)"
    proof -
      have "length (take K (sort ?E)) = K" using best len by (metis length_sort)
      then show ?thesis by simp
    qed
    ultimately have "take K (insort ?c (sort ?E)) = take K (sort ?E)"
      by (intro take_insort_greater)
    then show ?thesis
      using tie best by (simp add: step_below eligible_snoc sort_snoc)
  qed
qed

lemma global_kbest_loop:
  assumes "0 < K" and "sorted_wrt (<) (map fst xs)"
  shows "sort (items (expand_loop K d w (init_locals empty_eset m0) xs)) =
           take K (sort (eligible d w m0 xs))"
  using assms(2)
proof (induction xs rule: rev_induct)
  case Nil
  then show ?case by (simp add: init_locals_def eligible_def)
next
  case (snoc x xs)
  have s: "sorted_wrt (<) (map fst xs)" and later: "\<forall>y\<in>set xs. fst y < fst x"
    using snoc.prems by (auto simp: sorted_wrt_append)
  have inv: "loop_inv K m0 (expand_loop K d w (init_locals empty_eset m0) xs)"
    using assms(1) by (intro loop_inv_loop loop_inv_init) simp_all
  show ?case
    unfolding expand_loop_snoc
    using assms(1) inv snoc.IH[OF s] later by (rule global_kbest_step)
qed

text \<open>
  The functional specification of \<^verbatim>\<open>expand\<close>: over documents whose terms ascend, the
  result is the sorted list of all eligible candidates of the merged stream, cut at K.
\<close>

theorem expand_selects_K_best:
  assumes "0 < K" and "rset \<noteq> {||}"
    and "\<And>did ts. did |\<in>| rset \<Longrightarrow> db did = Some ts \<Longrightarrow> sorted_wrt (<) (map fst ts)"
    and "build_termlist_tree db rset m = (Inr t, m')"
  shows "items (fst (snd (expand K db rset d w min_wt0 empty_eset m))) =
           take K (sort (eligible d w min_wt0 (stream t)))"
proof -
  let ?f = "expand_loop K d w (init_locals empty_eset min_wt0) (stream t)"
  have "sorted_wrt (<) (map fst (stream t))"
    using assms(4,3) by (rule build_termlist_tree_sorted)
  then have "sort (items ?f) = take K (sort (eligible d w min_wt0 (stream t)))"
    using assms(1) by (intro global_kbest_loop)
  moreover have "loop_inv K min_wt0 ?f"
    using assms(1) by (intro loop_inv_loop loop_inv_init) simp_all
  ultimately show ?thesis
    using assms(1,2,4) by (simp add: expand_success sort_items_sort)
qed

section \<open>The claims\<close>

text \<open>
  C1: for a non-empty reference set and K at least 1, at every point of the candidate
  loop (between two passes, after any number \<open>n\<close> of positions of the merged stream)
  the selector holds at most K descriptors, and they are the K best, under the order of
  the descriptors, of the candidates handed to it so far (those the decider accepted
  and whose weight exceeded the threshold of their moment); in a stream of ascending
  terms they are also the K best of all candidates seen so far that the decider accepts
  and that weigh more than the minimum weight. The result of \<^verbatim>\<open>expand\<close> has at most
  K items.
\<close>

theorem C1_selector_holds_K_best:
  assumes "0 < K" and "rset \<noteq> {||}"
  shows "(\<forall>t m' n. build_termlist_tree db rset m = (Inr t, m') \<longrightarrow>
            (let s0 = init_locals empty_eset min_wt0;
                 s = expand_loop K d w s0 (take n (stream t));
                 inputs = selector_inputs K d w s0 (take n (stream t))
             in length (items s) \<le> K
              \<and> mset (items s) = mset (take K (sort inputs))
              \<and> (sorted_wrt (<) (map fst (stream t)) \<longrightarrow>
                   mset (items s) =
                     mset (take K (sort (eligible d w min_wt0 (take n (stream t))))))))
       \<and> length (items (fst (snd (expand K db rset d w min_wt0 empty_eset m)))) \<le> K"
proof (intro conjI allI impI)
  fix t m' n
  let ?i = "init_locals empty_eset min_wt0"
  let ?xs = "take n (stream t)"
  have inv0: "loop_inv K min_wt0 ?i" by (intro loop_inv_init) simp
  have "loop_inv K min_wt0 (expand_loop K d w ?i ?xs)"
    using assms(1) inv0 by (rule loop_inv_loop)
  then have 1: "length (items (expand_loop K d w ?i ?xs)) \<le> K"
    by (simp add: loop_inv_def)
  have "sort (items ?i) = take K (sort [])" by (simp add: init_locals_def)
  then have "sort (items (expand_loop K d w ?i ?xs)) =
             take K (sort ([] @ selector_inputs K d w ?i ?xs))"
    using assms(1) inv0 by (intro kbest_loop)
  then have 2: "mset (items (expand_loop K d w ?i ?xs)) =
                mset (take K (sort (selector_inputs K d w ?i ?xs)))"
    by (metis append_Nil mset_sort)
  have 3: "mset (items (expand_loop K d w ?i ?xs)) =
             mset (take K (sort (eligible d w min_wt0 ?xs)))"
    if "sorted_wrt (<) (map fst (stream t))"
  proof -
    have "sorted_wrt (<) (map fst ?xs)"
      using that by (simp add: take_map[symmetric] sorted_wrt_take)
    then have "sort (items (expand_loop K d w ?i ?xs)) =
               take K (sort (eligible d w min_wt0 ?xs))"
      using assms(1) by (intro global_kbest_loop)
    then show ?thesis by (metis mset_sort)
  qed
  show "let s0 = ?i; s = expand_loop K d w s0 ?xs; inputs = selector_inputs K d w s0 ?xs
        in length (items s) \<le> K \<and> mset (items s) = mset (take K (sort inputs))
         \<and> (sorted_wrt (<) (map fst (stream t)) \<longrightarrow>
              mset (items s) = mset (take K (sort (eligible d w min_wt0 ?xs))))"
    using 1 2 3 by (simp add: Let_def)
next
  show "length (items (fst (snd (expand K db rset d w min_wt0 empty_eset m)))) \<le> K"
    using assms by (rule expand_items_le)
qed

theorem C1_selector_holds_K_best_witness:
  "(let t = \<lparr>stream = [(''bird'', 2), (''cat'', 4), (''dog'', 1)], leaves = [0, 1]\<rparr>;
        s0 = init_locals empty_eset 0;
        s = expand_loop 2 None raw_frequency s0 (take 3 (stream t));
        inputs = selector_inputs 2 None raw_frequency s0 (take 3 (stream t))
    in length (items s) \<le> 2
     \<and> mset (items s) = mset (take 2 (sort inputs))
     \<and> mset (items s) =
         mset (take 2 (sort (eligible None raw_frequency 0 (take 3 (stream t))))))
   \<and> length (items (fst (snd (expand 2 example_db {|1, 2|} None raw_frequency 0
                                  empty_eset empty_memory)))) \<le> 2"
proof -
  let ?t = "\<lparr>stream = [(''bird'', 2), (''cat'', 4), (''dog'', 1)], leaves = [0, 1::nat]\<rparr>"
  have b: "build_termlist_tree example_db {|1, 2|} empty_memory =
             (Inr ?t, snd (build_termlist_tree example_db {|1, 2|} empty_memory))"
    by (simp add: eval_build)
  have h: "(0::nat) < 2" "{|1, 2::nat|} \<noteq> {||}" by simp_all
  have a: "sorted_wrt (<) (map fst (stream ?t))"
    by simp
  note c = C1_selector_holds_K_best[OF h, of example_db empty_memory 0 None raw_frequency]
  note f = c[THEN conjunct1, rule_format, OF b, of 3, unfolded Let_def]
  show ?thesis
    unfolding Let_def using f a c[THEN conjunct2] by blast
qed

text \<open>
  C2: the threshold starts at the minimum weight the caller gave. At every position of
  the stream, a term whose weight is at most the threshold of that moment, and so one
  whose weight equals it, leaves the items and the threshold as they were; an accepted
  term with a weight above the threshold is appended when there is room; when the push
  overflows, the worst of the items and the new candidate is evicted and the threshold
  becomes the weight of the worst item retained. Every item of the result weighs more
  than the minimum weight, so a term weighing exactly the minimum is never in the
  result.
\<close>

theorem C2_strict_threshold:
  assumes "0 < K" and "rset \<noteq> {||}"
    and "build_termlist_tree db rset m = (Inr t, m')"
    and "n < length (stream t)"
  shows "(let s0 = init_locals empty_eset min_wt0;
              s = expand_loop K d w s0 (take n (stream t));
              s' = expand_loop K d w s0 (take (Suc n) (stream t));
              pos = stream t ! n;
              weight = w (snd pos) (fst pos);
              c = candidate w pos
          in min_wt s0 = min_wt0
           \<and> (weight \<le> min_wt s \<longrightarrow> items s' = items s \<and> min_wt s' = min_wt s)
           \<and> (\<not> accepts d (fst pos) \<longrightarrow> items s' = items s \<and> min_wt s' = min_wt s)
           \<and> (accepts d (fst pos) \<and> min_wt s < weight \<and> length (items s) < K \<longrightarrow>
                items s' = items s @ [c] \<and> min_wt s' = min_wt s)
           \<and> (accepts d (fst pos) \<and> min_wt s < weight \<and> K \<le> length (items s) \<longrightarrow>
                mset (items s') = mset (items s) + {#c#} - {#Max (set (items s @ [c]))#}
                \<and> min_wt s' = wt (Max (set (items s')))))
       \<and> (\<forall>x\<in>set (items (fst (snd (expand K db rset d w min_wt0 empty_eset m)))).
            min_wt0 < wt x)"
proof -
  let ?i = "init_locals empty_eset min_wt0"
  let ?s = "expand_loop K d w ?i (take n (stream t))"
  let ?pos = "stream t ! n"
  let ?s' = "expand_step K d w ?s ?pos"
  have inv: "loop_inv K min_wt0 (expand_loop K d w ?i ys)" for ys
    using assms(1) by (intro loop_inv_loop loop_inv_init) simp_all
  have s': "expand_loop K d w ?i (take (Suc n) (stream t)) = ?s'"
    using assms(4) by (rule expand_loop_take_Suc)
  have 0: "min_wt ?i = min_wt0" by (simp add: init_locals_def)
  have 1: "items ?s' = items ?s \<and> min_wt ?s' = min_wt ?s"
    if "w (snd ?pos) (fst ?pos) \<le> min_wt ?s"
    using that by (cases "accepts d (fst ?pos)") (simp_all add: step_rejected step_below)
  have 2: "items ?s' = items ?s \<and> min_wt ?s' = min_wt ?s" if "\<not> accepts d (fst ?pos)"
    using that by (simp add: step_rejected)
  have 3: "items ?s' = items ?s @ [candidate w ?pos] \<and> min_wt ?s' = min_wt ?s"
    if "accepts d (fst ?pos) \<and> min_wt ?s < w (snd ?pos) (fst ?pos) \<and> length (items ?s) < K"
    using that by (simp add: step_room handed_def)
  have 4: "mset (items ?s') =
             mset (items ?s) + {#candidate w ?pos#} - {#Max (set (items ?s @ [candidate w ?pos]))#}
           \<and> min_wt ?s' = wt (Max (set (items ?s')))"
    if "accepts d (fst ?pos) \<and> min_wt ?s < w (snd ?pos) (fst ?pos) \<and> K \<le> length (items ?s)"
    using that min_wt_overflow[OF assms(1) inv, of d w "take n (stream t)" ?pos]
    by (simp add: handed_def)
  let ?f = "expand_loop K d w ?i (stream t)"
  have "\<forall>x\<in>set (items ?f). min_wt0 < wt x"
    using inv[of "stream t"] by (simp add: loop_inv_def)
  then have 5: "\<forall>x\<in>set (sort_items ?f). min_wt0 < wt x"
    using inv[of "stream t"] by (simp add: sort_items_sort)
  have e: "expand K db rset d w min_wt0 empty_eset m =
             (Inr (), \<lparr>ebound = ebound ?f, items = sort_items ?f\<rparr>, delete_tree t m')"
    using assms by (intro expand_success) simp_all
  show ?thesis
    unfolding Let_def s' using 0 1 2 3 4 5 by (simp only: e fst_conv snd_conv ESet_Internal.simps) blast
qed

theorem C2_strict_threshold_witness:
  "(let s0 = init_locals empty_eset 2;
        xs = [(''bird'', 2), (''cat'', 4), (''dog'', 1)];
        s = expand_loop 2 None raw_frequency s0 (take 0 xs);
        s' = expand_loop 2 None raw_frequency s0 (take 1 xs)
    in raw_frequency 2 ''bird'' = min_wt s \<and> items s' = items s \<and> min_wt s' = min_wt s)
   \<and> (let s0 = init_locals empty_eset 0;
          xs = [(''bird'', 2), (''cat'', 4), (''dog'', 1)];
          s = expand_loop 1 None raw_frequency s0 (take 1 xs);
          s' = expand_loop 1 None raw_frequency s0 (take 2 xs)
      in items s = [ExpandTerm 2 ''bird''] \<and> min_wt s' = wt (Max (set (items s'))))
   \<and> items (fst (snd (expand 2 example_db {|1, 2|} None raw_frequency 2
                         empty_eset empty_memory))) = [ExpandTerm 4 ''cat'']
   \<and> 2 < wt (hd (items (fst (snd (expand 2 example_db {|1, 2|} None raw_frequency 2
                                    empty_eset empty_memory)))))"
proof -
  let ?xs = "[(''bird'', 2), (''cat'', 4), (''dog'', 1::nat)]"
  let ?t = "\<lparr>stream = ?xs, leaves = [0, 1::nat]\<rparr>"
  have b: "build_termlist_tree example_db {|1, 2|} empty_memory =
             (Inr ?t, snd (build_termlist_tree example_db {|1, 2|} empty_memory))"
    by (simp add: eval_build)
  have h: "(0::nat) < 1" "(0::nat) < 2" "{|1, 2::nat|} \<noteq> {||}" by simp_all
  have n: "0 < length (stream ?t)" "1 < length (stream ?t)" by simp_all
  have s: "expand_loop 1 None raw_frequency (init_locals empty_eset 0) (take 1 ?xs) =
             \<lparr>ebound = 1, items = [ExpandTerm 2 ''bird''], is_heap = False, min_wt = 0\<rparr>"
    by (simp add: eval_loop raw_frequency_def empty_eset_def)
  have r: "items (fst (snd (expand 2 example_db {|1, 2|} None raw_frequency 2
                         empty_eset empty_memory))) = [ExpandTerm 4 ''cat'']"
    by (simp add: eval_build eval_heap eval_expand)
  note c0 = C2_strict_threshold[OF h(2) h(3) b n(1), of 2 None raw_frequency]
  note c1 = C2_strict_threshold[OF h(1) h(3) b n(2), of 0 None raw_frequency, THEN conjunct1]
  have 1: "raw_frequency 2 ''bird'' = min_wt (init_locals empty_eset 2)"
    by (simp add: raw_frequency_def init_locals_def)
  have 2: "accepts None (fst (stream ?t ! 1))
         \<and> (0::real) < raw_frequency (snd (stream ?t ! 1)) (fst (stream ?t ! 1))
         \<and> 1 \<le> length [ExpandTerm 2 ''bird'']"
    by (simp add: accepts_def raw_frequency_def)
  have 3: "min_wt (expand_loop 1 None raw_frequency (init_locals empty_eset 0) (take 2 ?xs)) =
        wt (Max (set (items (expand_loop 1 None raw_frequency (init_locals empty_eset 0)
                               (take 2 ?xs)))))"
    using c1 s 2 by (simp add: Let_def numeral_2_eq_2)
  show ?thesis
    using c0 1 3 r s by (simp add: Let_def)
qed

text \<open>
  C3: when every document of the reference set yields its terms in strictly ascending
  order, as the storage layer does, the items of the result are in best-first order:
  of two consecutive items the first weighs more, or they weigh the same and the term
  of the first is lexicographically smaller.
\<close>

theorem C3_best_first_order:
  assumes "0 < K" and "rset \<noteq> {||}"
    and "\<And>did ts. did |\<in>| rset \<Longrightarrow> db did = Some ts \<Longrightarrow> sorted_wrt (<) (map fst ts)"
  shows "(let xs = items (fst (snd (expand K db rset d w min_wt0 empty_eset m)))
          in \<forall>i. Suc i < length xs \<longrightarrow>
               wt (xs ! Suc i) < wt (xs ! i)
               \<or> (wt (xs ! i) = wt (xs ! Suc i) \<and> tname (xs ! i) < tname (xs ! Suc i)))"
proof (cases db rset m rule: build_cases)
  case (failed e m')
  then show ?thesis using assms(1,2) by (simp add: expand_failure)
next
  case (ok t m')
  let ?P = "selector_inputs K d w (init_locals empty_eset min_wt0) (stream t)"
  let ?xs = "items (fst (snd (expand K db rset d w min_wt0 empty_eset m)))"
  have xs: "?xs = take K (sort ?P)"
    using assms(1,2) ok by (rule expand_result)
  have "sorted_wrt (<) (map fst (stream t))"
    using ok assms(3) by (rule build_termlist_tree_sorted)
  then have "distinct (map fst (stream t))" by (simp add: strict_sorted_iff)
  then have "distinct (map tname ?P)" by (rule distinct_selector_inputs)
  then have "distinct ?P" by (simp add: distinct_map)
  then have "sorted_wrt (<) ?xs"
    unfolding xs by (simp add: strict_sorted_iff sorted_wrt_take)
  then have "?xs ! i < ?xs ! Suc i" if "Suc i < length ?xs" for i
    using that by (simp add: sorted_wrt_nth_less)
  then show ?thesis
    unfolding Let_def less_ExpandTerm_def by (meson not_less_iff_gr_or_eq)
qed

theorem C3_best_first_order_witness:
  "(let xs = items (fst (snd (expand 2 example_db {|1, 2|} None raw_frequency 0
                                empty_eset empty_memory)))
    in xs = [ExpandTerm 4 ''cat'', ExpandTerm 2 ''bird'']
     \<and> Suc 0 < length xs
     \<and> (wt (xs ! Suc 0) < wt (xs ! 0)
         \<or> (wt (xs ! 0) = wt (xs ! Suc 0) \<and> tname (xs ! 0) < tname (xs ! Suc 0))))"
proof -
  have h: "(0::nat) < 2" "{|1, 2::nat|} \<noteq> {||}" by simp_all
  have s: "sorted_wrt (<) (map fst ts)" if "did |\<in>| {|1, 2|}" "example_db did = Some ts"
    for did ts
    using that by (auto simp: example_db_def split: if_splits)
  have r: "items (fst (snd (expand 2 example_db {|1, 2|} None raw_frequency 0
                         empty_eset empty_memory))) = [ExpandTerm 4 ''cat'', ExpandTerm 2 ''bird'']"
    by (simp add: eval_build eval_heap eval_expand)
  show ?thesis
    using C3_best_first_order[where K = 2 and rset = "{|1, 2|}" and db = example_db
        and d = None and w = raw_frequency and ?min_wt0.0 = 0 and m = empty_memory, OF h s]
    unfolding Let_def using r by simp
qed

text \<open>
  C4: the candidate count of the result equals the number of terms of the whole merged
  stream that the decider accepts, whatever their weights and whatever K is; it is at
  least the size of the result; a pass for a term that the decider rejects leaves the
  state of the loop as it was; when the decider rejects every term, the size and the
  candidate count are both 0.
\<close>

theorem C4_candidate_count:
  assumes "0 < K" and "rset \<noteq> {||}"
    and "build_termlist_tree db rset m = (Inr t, m')"
  shows "(let E = \<lparr>internal = fst (snd (expand K db rset d w min_wt0 empty_eset m))\<rparr>
          in get_ebound E = length (filter (\<lambda>pos. accepts d (fst pos)) (stream t))
           \<and> size_eset E \<le> get_ebound E
           \<and> ((\<forall>pos\<in>set (stream t). \<not> accepts d (fst pos)) \<longrightarrow>
                size_eset E = 0 \<and> get_ebound E = 0))
       \<and> (\<forall>s pos. \<not> accepts d (fst pos) \<longrightarrow> expand_step K d w s pos = s)"
proof -
  let ?s = "expand_loop K d w (init_locals empty_eset min_wt0) (stream t)"
  have inv: "loop_inv K min_wt0 ?s"
    using assms(1) by (intro loop_inv_loop loop_inv_init) simp_all
  have e: "expand K db rset d w min_wt0 empty_eset m =
             (Inr (), \<lparr>ebound = ebound ?s, items = sort_items ?s\<rparr>, delete_tree t m')"
    using assms by (intro expand_success) simp_all
  have 1: "ebound ?s = length (filter (\<lambda>pos. accepts d (fst pos)) (stream t))"
    by (simp add: ebound_loop init_locals_def)
  have "length (items ?s) \<le> ebound ?s"
    by (intro size_le_ebound_loop) (simp add: init_locals_def)
  then have 2: "length (sort_items ?s) \<le> ebound ?s"
    using inv by (simp add: length_sort_items)
  have 3: "length (sort_items ?s) = 0 \<and> ebound ?s = 0"
    if "\<forall>pos\<in>set (stream t). \<not> accepts d (fst pos)"
  proof -
    have "filter (\<lambda>pos. accepts d (fst pos)) (stream t) = []"
      using that by (simp add: filter_empty_conv)
    then show ?thesis using 1 2 by simp
  qed
  show ?thesis
    using 1 2 3 by (simp add: e get_ebound_def size_eset_def step_rejected)
qed

theorem C4_candidate_count_witness:
  "(let E = \<lparr>internal = fst (snd (expand 1 example_db {|1, 2|} (Some (\<lambda>t. t \<noteq> ''cat''))
                                      raw_frequency 0 empty_eset empty_memory))\<rparr>
    in get_ebound E = 2 \<and> size_eset E = 1 \<and> size_eset E \<le> get_ebound E)
   \<and> (let E = \<lparr>internal = fst (snd (expand 1 example_db {|1, 2|} (Some (\<lambda>t. False))
                                      raw_frequency 0 empty_eset empty_memory))\<rparr>
      in size_eset E = 0 \<and> get_ebound E = 0)"
proof -
  have b: "build_termlist_tree example_db {|1, 2|} empty_memory =
             (Inr \<lparr>stream = [(''bird'', 2), (''cat'', 4), (''dog'', 1)], leaves = [0, 1]\<rparr>,
              snd (build_termlist_tree example_db {|1, 2|} empty_memory))"
    by (simp add: eval_build)
  have h: "(0::nat) < 1" "{|1, 2::nat|} \<noteq> {||}" by simp_all
  have s: "size_eset \<lparr>internal = fst (snd (expand 1 example_db {|1, 2|}
              (Some (\<lambda>t. t \<noteq> ''cat'')) raw_frequency 0 empty_eset empty_memory))\<rparr> = 1"
    by (simp add: size_eset_def eval_build eval_heap eval_expand)
  show ?thesis
    using C4_candidate_count[OF h b, of "Some (\<lambda>t. t \<noteq> ''cat'')" raw_frequency 0]
      C4_candidate_count[OF h b, of "Some (\<lambda>t. False)" raw_frequency 0] s
    by (simp add: Let_def accepts_def)
qed

text \<open>
  C5: when the open of some document of the reference set fails, \<^verbatim>\<open>expand\<close> raises
  the exception of the first failing document, in the order of the set; every term
  list opened for an earlier document is deleted, each one once (the log of deletes
  grows by exactly the opened addresses, which are distinct, and none of them stays
  allocated; in a memory whose earlier deletes are of older addresses each opened
  address is in the log exactly once); nothing else in memory changes, and the object
  is left as it was, empty.
\<close>

theorem C5_failed_open_releases_termlists:
  assumes "0 < K" and "did |\<in>| rset" and "db did = None"
  shows "(let dids = sorted_list_of_fset rset;
              n = length (takeWhile (\<lambda>d. db d \<noteq> None) dids);
              opened = fst (snd (open_termlists db dids [] m));
              (r, e, m') = expand K db rset d w min_wt0 empty_eset m
          in n < length dids \<and> db (dids ! n) = None \<and> r = Inl (OpenError (dids ! n))
           \<and> e = empty_eset
           \<and> length opened = n \<and> distinct opened
           \<and> deleted m' = deleted m @ opened
           \<and> (\<forall>p\<in>set opened. termlists m' p = None)
           \<and> (\<forall>p. p \<notin> set opened \<longrightarrow> termlists m' p = termlists m p)
           \<and> ((\<forall>p\<in>set (deleted m). p < next_addr m) \<longrightarrow>
                (\<forall>p\<in>set opened. count_list (deleted m') p = 1)))"
proof -
  have ne: "rset \<noteq> {||}" using assms(2) by auto
  let ?dids = "sorted_list_of_fset rset"
  let ?n = "length (takeWhile (\<lambda>d. db d \<noteq> None) ?dids)"
  let ?opened = "[next_addr m ..< next_addr m + ?n]"
  let ?b = "build_termlist_tree db rset m"
  note f = build_termlist_tree_failure[where db = db and did = did and rset = rset,
      OF ne assms(2,3)]
  have e: "expand K db rset d w min_wt0 empty_eset m =
             (Inl (OpenError (?dids ! ?n)), empty_eset, snd ?b)"
    using f(4) assms(1) ne
    by (intro expand_failure) (simp_all add: prod_eq_iff)
  have c: "count_list (deleted m @ ?opened) p = 1"
    if "\<forall>p\<in>set (deleted m). p < next_addr m" "p \<in> set ?opened" for p
  proof -
    have "p \<notin> set (deleted m)" using that by auto
    then have "count_list (deleted m) p = 0" by (simp add: count_list_0_iff)
    moreover have "count_list ?opened p = 1"
      using that(2) by (intro count_list_distinct) simp_all
    ultimately show ?thesis by simp
  qed
  show ?thesis
    unfolding Let_def e f(3) using f(1,2,5,7) c by (auto simp: f(5))
qed

theorem C5_failed_open_releases_termlists_witness:
  "(case expand 2 example_db {|1, 2, 3|} None raw_frequency 0 empty_eset empty_memory of
      (r, e, m') \<Rightarrow>
        r = Inl (OpenError 3) \<and> e = empty_eset \<and> deleted m' = [0, 1]
        \<and> termlists m' 0 = None \<and> termlists m' 1 = None
        \<and> count_list (deleted m') 0 = 1 \<and> count_list (deleted m') 1 = 1)"
proof -
  have h: "(0::nat) < 2" "(3::nat) |\<in>| {|1, 2, 3|}" "example_db 3 = None"
    by (simp_all add: example_db_def)
  have o: "fst (snd (open_termlists example_db (sorted_list_of_fset {|1, 2, 3|}) [] empty_memory))
             = [0, 1]"
    by (simp add: eval_build)
  have n: "length (takeWhile (\<lambda>d. example_db d \<noteq> None) (sorted_list_of_fset {|1, 2, 3|})) = 2"
    by (simp add: sorted_list_of_fset.rep_eq example_db_def)
  have d: "sorted_list_of_fset {|1, 2, 3::nat|} ! 2 = 3"
    by (simp add: sorted_list_of_fset.rep_eq)
  have m: "deleted empty_memory = []" by (simp add: empty_memory_def)
  show ?thesis
    using C5_failed_open_releases_termlists[where K = 2 and did = 3 and rset = "{|1, 2, 3|}"
        and db = example_db and m = empty_memory and d = None and w = raw_frequency
        and ?min_wt0.0 = 0, OF h]
    unfolding Let_def o n d m by (auto split: prod.splits)
qed

text \<open>
  C6: for the reference set of documents 1 and 2 of the example, with K = 2, no
  decider, minimum weight 0 and the raw combined frequency as weight, the merged stream
  is "bird" 2, "cat" 4, "dog" 1, and \<^verbatim>\<open>expand\<close> returns with a candidate count of 3
  and the items ("cat", 4), ("bird", 2), in this order.
\<close>

theorem C6_end_to_end_example:
  "map_prod (map_sum id stream) (\<lambda>m. ()) (build_termlist_tree example_db {|1, 2|} empty_memory)
     = (Inr [(''bird'', 2), (''cat'', 4), (''dog'', 1)], ())
   \<and> (case expand 2 example_db {|1, 2|} None raw_frequency 0 empty_eset empty_memory of
        (r, e, m) \<Rightarrow> (r, e))
     = (Inr (), \<lparr>ebound = 3, items = [ExpandTerm 4 ''cat'', ExpandTerm 2 ''bird'']\<rparr>)"
  by (simp add: eval_build eval_heap eval_expand)

text \<open>
  C7: a call of \<^verbatim>\<open>expand\<close> with K = 0, with an empty reference set, or on an object
  that is already populated (a candidate count other than 0, or items) fails at once
  with the assertion error; the object and the memory are left exactly as they were,
  nothing is appended and nothing is overwritten.
\<close>

theorem C7_contract_violations:
  assumes "max_esize = 0 \<or> rset = {||} \<or> ebound this \<noteq> 0 \<or> items this \<noteq> []"
  shows "expand max_esize db rset edecider eweight min_wt0 this m = (Inl AssertionError, this, m)"
  using assms by (auto simp: expand_def Assert_def)

theorem C7_contract_violations_witness:
  "expand 0 example_db {|1, 2|} None raw_frequency 0 empty_eset empty_memory
     = (Inl AssertionError, empty_eset, empty_memory)
   \<and> expand 2 example_db {||} None raw_frequency 0 empty_eset empty_memory
     = (Inl AssertionError, empty_eset, empty_memory)
   \<and> expand 2 example_db {|1, 2|} None raw_frequency 0
        \<lparr>ebound = 3, items = [ExpandTerm 4 ''cat'', ExpandTerm 2 ''bird'']\<rparr> empty_memory
     = (Inl AssertionError,
        \<lparr>ebound = 3, items = [ExpandTerm 4 ''cat'', ExpandTerm 2 ''bird'']\<rparr>, empty_memory)"
proof -
  have 1: "(0::nat) = 0 \<or> {|1, 2::nat|} = {||} \<or> ebound empty_eset \<noteq> 0 \<or> items empty_eset \<noteq> []"
    by simp
  have 2: "(2::nat) = 0 \<or> ({||} :: nat fset) = {||} \<or> ebound empty_eset \<noteq> 0
           \<or> items empty_eset \<noteq> []"
    by simp
  have 3: "(2::nat) = 0 \<or> {|1, 2::nat|} = {||}
           \<or> ebound \<lparr>ebound = 3, items = [ExpandTerm 4 ''cat'', ExpandTerm 2 ''bird'']\<rparr> \<noteq> 0
           \<or> items \<lparr>ebound = 3, items = [ExpandTerm 4 ''cat'', ExpandTerm 2 ''bird'']\<rparr> \<noteq> []"
    by simp
  show ?thesis
    using C7_contract_violations[OF 1] C7_contract_violations[OF 2] C7_contract_violations[OF 3]
    by simp
qed

text \<open>
  C8: dereferencing an iterator at the end (\<open>off_from_end = 0\<close>), by \<^verbatim>\<open>operator*\<close> or by
  \<^verbatim>\<open>get_weight\<close>, fails with the assertion error; an iterator that is not at the end
  and lies within the items yields the term and the weight of the item at rank size
  minus \<open>off_from_end\<close>; a traversal from the beginning by \<open>advance\<close> visits the items in
  the order of the sequence, which after \<^verbatim>\<open>expand\<close> is sorted best-first.
\<close>

theorem C8_iterator_dereference:
  "(off_from_end it = 0 \<longrightarrow>
      iterator_term it = Inl AssertionError \<and> iterator_get_weight it = Inl AssertionError)
   \<and> (0 < off_from_end it \<and> off_from_end it \<le> size_eset (eset it) \<longrightarrow>
        iterator_term it =
          Inr (tname (items (internal (eset it)) ! (size_eset (eset it) - off_from_end it)))
        \<and> iterator_get_weight it =
          Inr (wt (items (internal (eset it)) ! (size_eset (eset it) - off_from_end it))))
   \<and> visit (begin_eset e) = map Inr (items (internal e))
   \<and> (let r = fst (snd (expand K db rset d w min_wt0 empty_eset m))
      in visit (begin_eset \<lparr>internal = r\<rparr>) = map Inr (items r) \<and> sorted (items r))"
proof -
  have v: "visit (begin_eset e) = map Inr (items (internal e))" for e
    using visit_drop[of "begin_eset e"] by (simp add: begin_eset_def size_eset_def)
  show ?thesis
    using v sorted_expand_items[of K db rset d w min_wt0 m]
    by (auto simp: iterator_term_def iterator_get_weight_def deref_def Assert_def size_eset_def
        Let_def)
qed

theorem C8_iterator_dereference_witness:
  "(let e = \<lparr>internal = \<lparr>ebound = 3, items = [ExpandTerm 4 ''cat'', ExpandTerm 2 ''bird'']\<rparr>\<rparr>
    in iterator_term \<lparr>eset = e, off_from_end = 0\<rparr> = Inl AssertionError
     \<and> iterator_get_weight \<lparr>eset = e, off_from_end = 0\<rparr> = Inl AssertionError
     \<and> iterator_term \<lparr>eset = e, off_from_end = 2\<rparr> = Inr ''cat''
     \<and> iterator_get_weight \<lparr>eset = e, off_from_end = 1\<rparr> = Inr 2
     \<and> visit (begin_eset e) = [Inr (ExpandTerm 4 ''cat''), Inr (ExpandTerm 2 ''bird'')])"
proof -
  let ?e = "\<lparr>internal = \<lparr>ebound = 3, items = [ExpandTerm 4 ''cat'', ExpandTerm 2 ''bird'']\<rparr>\<rparr>"
  show ?thesis
    using C8_iterator_dereference[of "\<lparr>eset = ?e, off_from_end = 0\<rparr>" ?e]
      C8_iterator_dereference[of "\<lparr>eset = ?e, off_from_end = 2\<rparr>" ?e]
      C8_iterator_dereference[of "\<lparr>eset = ?e, off_from_end = 1\<rparr>" ?e]
    by (simp add: size_eset_def Let_def)
qed

text \<open>
  C9: when the retained collection exceeds K at some position \<open>n\<close> of the stream (an
  overflow eviction occurs there), the collection holds exactly K items after that
  position and at every later point of the loop, and the result of \<^verbatim>\<open>expand\<close> has
  exactly K items.
\<close>

theorem C9_size_exactly_K_after_overflow:
  assumes "0 < K" and "rset \<noteq> {||}"
    and "build_termlist_tree db rset m = (Inr t, m')"
    and "n < length (stream t)"
    and "overflows K d w (expand_loop K d w (init_locals empty_eset min_wt0) (take n (stream t)))
           (stream t ! n)"
  shows "(\<forall>k. n < k \<longrightarrow>
            length (items (expand_loop K d w (init_locals empty_eset min_wt0)
                             (take k (stream t)))) = K)
       \<and> length (items (fst (snd (expand K db rset d w min_wt0 empty_eset m)))) = K"
proof -
  let ?s0 = "init_locals empty_eset min_wt0"
  let ?xs = "stream t"
  have inv: "loop_inv K min_wt0 (expand_loop K d w ?s0 ys)" for ys
    using assms(1) by (intro loop_inv_loop loop_inv_init) simp_all
  have heap: "is_heap (expand_loop K d w ?s0 (take k ?xs))" if "n < k" for k
  proof -
    have "take k ?xs = take (Suc n) ?xs @ drop (Suc n) (take k ?xs)"
      using that by (metis Suc_leI append_take_drop_id min.absorb2 take_take min.commute)
    moreover have "is_heap (expand_loop K d w ?s0 (take (Suc n) ?xs))"
      using assms(4,5) by (simp add: expand_loop_take_Suc is_heap_overflow)
    ultimately show ?thesis
      by (metis expand_loop_append is_heap_loop)
  qed
  have len: "length (items (expand_loop K d w ?s0 (take k ?xs))) = K" if "n < k" for k
    using heap[OF that] inv[of "take k ?xs"] by (simp add: loop_inv_def)
  have "length (items (expand_loop K d w ?s0 ?xs)) = K"
    using len[of "length ?xs"] assms(4) by simp
  then have "length (sort_items (expand_loop K d w ?s0 ?xs)) = K"
    using inv[of ?xs] by (simp add: length_sort_items)
  then show ?thesis
    using len assms(1-3) by (simp add: expand_success)
qed

theorem C9_size_exactly_K_after_overflow_witness:
  "length (items (expand_loop 2 None raw_frequency (init_locals empty_eset 0)
                    (take 3 [(''bird'', 2), (''cat'', 4), (''dog'', 1)]))) = 2
   \<and> length (items (fst (snd (expand 2 example_db {|1, 2|} None raw_frequency 0
                                  empty_eset empty_memory)))) = 2"
proof -
  have b: "build_termlist_tree example_db {|1, 2|} empty_memory =
             (Inr \<lparr>stream = [(''bird'', 2), (''cat'', 4), (''dog'', 1)], leaves = [0, 1]\<rparr>,
              snd (build_termlist_tree example_db {|1, 2|} empty_memory))"
    by (simp add: eval_build)
  have h: "(0::nat) < 2" "{|1, 2::nat|} \<noteq> {||}" by simp_all
  have n: "2 < length (stream \<lparr>stream = [(''bird'', 2), (''cat'', 4), (''dog'', 1)],
                                leaves = [0, 1::nat]\<rparr>)"
    by simp
  have o: "overflows 2 None raw_frequency
             (expand_loop 2 None raw_frequency (init_locals empty_eset 0)
                (take 2 (stream \<lparr>stream = [(''bird'', 2), (''cat'', 4), (''dog'', 1)],
                                 leaves = [0, 1::nat]\<rparr>)))
             (stream \<lparr>stream = [(''bird'', 2), (''cat'', 4), (''dog'', 1)],
                      leaves = [0, 1::nat]\<rparr> ! 2)"
    by (simp add: overflows_def eval_loop raw_frequency_def empty_eset_def take_Suc_conv_app_nth
        numeral_2_eq_2)
  note c = C9_size_exactly_K_after_overflow[OF h b n o]
  have "(2::nat) < 3" by simp
  with c[THEN conjunct1, rule_format, of 3] c[THEN conjunct2] show ?thesis by simp
qed

text \<open>
  C10: \<^verbatim>\<open>ESet::get_description\<close> returns the constant string "ESet()" for every
  \<^verbatim>\<open>ESet\<close>, whatever its candidate count and its items are: two sets with different
  contents have the same description, while \<^verbatim>\<open>ESet::Internal::get_description\<close> tells a
  set with an item from one without, however the numbers and terms are rendered.
\<close>

theorem C10_get_description_constant:
  "get_description e = ''ESet()''
   \<and> get_description \<lparr>internal = \<lparr>ebound = b, items = [x]\<rparr>\<rparr>
       = get_description \<lparr>internal = \<lparr>ebound = b', items = []\<rparr>\<rparr>
   \<and> internal_get_description str_count str_wt append_term \<lparr>ebound = b, items = [x]\<rparr>
       \<noteq> internal_get_description str_count str_wt append_term \<lparr>ebound = b, items = []\<rparr>"
  by (simp add: get_description_def internal_get_description_def)

end
